theory Spec2Isabelle
  imports Complex_Main "HOL-Library.AList"
begin

section \<open>Python numbers used by \<open>bot.py\<close>\<close>

text \<open>
  Python's \<open>int\<close> is unbounded and is modelled by \<open>int\<close>.  The settlement code mixes
  integers with binary64 floats (\<open>amt * PAY_MULTI\<close>, \<open>stake / total_winner_stakes\<close>,
  \<open>round(...)\<close>).  A finite binary64 value \<open>m * 2 ^ e\<close> is modelled exactly by the pair
  \<open>(m, e)\<close>; every float operation computes the exact result on such pairs and then rounds
  it to 53 significant bits, ties to even, with gradual underflow below \<open>2 ^ -1022\<close>.
  A result of magnitude \<open>2 ^ 1024\<close> or more is \<open>OverflowError\<close>: Python raises it either in
  the conversion of the integer operand or in \<open>round\<close> applied to the infinite product, in
  both cases inside the same expression.
\<close>

datatype py_error = OverflowError | ZeroDivisionError | KeyError

type_synonym pyfloat = "int \<times> int"

fun bitlen :: "nat \<Rightarrow> nat" where
  "bitlen n = (if n = 0 then 0 else Suc (bitlen (n div 2)))"

declare bitlen.simps [simp del]

text \<open>\<open>n / d\<close> for \<open>d > 0\<close>, rounded to the nearest integer, ties to the even one.\<close>

definition rne_div :: "int \<Rightarrow> int \<Rightarrow> int" where
  "rne_div n d =
     (if 2 * (n mod d) < d then n div d
      else if d < 2 * (n mod d) then n div d + 1
      else if even (n div d) then n div d else n div d + 1)"

text \<open>
  Rounding of an exact dyadic value \<open>m * 2 ^ e\<close> to binary64: \<open>round_shift\<close> is the number
  of low bits to drop (to 53 significant bits, and to no exponent below \<open>-1074\<close>),
  \<open>drop_bits\<close> drops them with rounding, and \<open>check_overflow\<close> refuses a magnitude of
  \<open>2 ^ 1024\<close> or more.
\<close>

definition round_shift :: "int \<Rightarrow> int \<Rightarrow> int" where
  "round_shift m e = max (int (bitlen (nat \<bar>m\<bar>)) - 53) (- 1074 - e)"

definition drop_bits :: "int \<Rightarrow> int \<Rightarrow> int \<Rightarrow> pyfloat" where
  "drop_bits m e k = (if k \<le> 0 then (m, e) else (rne_div m (2 ^ nat k), e + k))"

definition check_overflow :: "pyfloat \<Rightarrow> py_error + pyfloat" where
  "check_overflow y =
     (if 1024 < int (bitlen (nat \<bar>fst y\<bar>)) + snd y then Inl OverflowError else Inr y)"

definition fl_round :: "pyfloat \<Rightarrow> py_error + pyfloat" where
  "fl_round x = check_overflow (drop_bits (fst x) (snd x) (round_shift (fst x) (snd x)))"

text \<open>\<open>float(n)\<close> for an integer \<open>n\<close>.\<close>

definition float_of_int :: "int \<Rightarrow> py_error + pyfloat" where
  "float_of_int n = fl_round (n, 0)"

definition float_mul :: "pyfloat \<Rightarrow> pyfloat \<Rightarrow> py_error + pyfloat" where
  "float_mul a b = fl_round (fst a * fst b, snd a + snd b)"

text \<open>The mantissa of \<open>a\<close> at the exponent \<open>e \<le> snd a\<close>.\<close>

definition mant_at :: "pyfloat \<Rightarrow> int \<Rightarrow> int" where
  "mant_at a e = fst a * 2 ^ nat (snd a - e)"

definition float_sub :: "pyfloat \<Rightarrow> pyfloat \<Rightarrow> py_error + pyfloat" where
  "float_sub a b =
     fl_round (mant_at a (min (snd a) (snd b)) - mant_at b (min (snd a) (snd b)),
               min (snd a) (snd b))"

definition float_less :: "pyfloat \<Rightarrow> pyfloat \<Rightarrow> bool" where
  "float_less a b = (mant_at a (min (snd a) (snd b)) < mant_at b (min (snd a) (snd b)))"

text \<open>\<open>n * f\<close> for an integer \<open>n\<close> and a float \<open>f\<close>: the integer is converted first.\<close>

definition int_times_float :: "int \<Rightarrow> pyfloat \<Rightarrow> py_error + pyfloat" where
  "int_times_float n f =
     (case float_of_int n of Inl err \<Rightarrow> Inl err | Inr x \<Rightarrow> float_mul x f)"

text \<open>
  \<open>a / b\<close> for integers: Python returns the correctly rounded quotient.  For \<open>b > 0\<close> the
  quotient of \<open>a * 2 ^ s\<close> by \<open>b\<close> is computed with \<open>s\<close> so large that it has at least 55
  bits, a remainder is kept as a sticky lowest bit, and the result is rounded once.
\<close>

definition quotient_shift :: "int \<Rightarrow> int \<Rightarrow> nat" where
  "quotient_shift a b = nat (max 0 (55 + int (bitlen (nat b)) - int (bitlen (nat \<bar>a\<bar>))))"

definition sticky_quotient :: "int \<Rightarrow> int \<Rightarrow> nat \<Rightarrow> int" where
  "sticky_quotient a b s =
     2 * ((a * 2 ^ s) div b) + (if (a * 2 ^ s) mod b = 0 then 0 else 1)"

definition pos_truediv :: "int \<Rightarrow> int \<Rightarrow> py_error + pyfloat" where
  "pos_truediv a b =
     fl_round (sticky_quotient a b (quotient_shift a b), - int (quotient_shift a b) - 1)"

definition int_truediv :: "int \<Rightarrow> int \<Rightarrow> py_error + pyfloat" where
  "int_truediv a b =
     (if b = 0 then Inl ZeroDivisionError
      else if b < 0 then pos_truediv (- a) (- b)
      else pos_truediv a b)"

text \<open>\<open>round(x)\<close> of a float, without \<open>ndigits\<close>: the nearest integer, ties to even.\<close>

definition py_round :: "pyfloat \<Rightarrow> int" where
  "py_round x = (if 0 \<le> snd x then fst x * 2 ^ nat (snd x) else rne_div (fst x) (2 ^ nat (- snd x)))"

text \<open>\<open>int(x)\<close> of a float: truncation towards zero.\<close>

definition py_trunc :: "pyfloat \<Rightarrow> int" where
  "py_trunc x =
     (if 0 \<le> snd x then fst x * 2 ^ nat (snd x)
      else if 0 \<le> fst x then fst x div 2 ^ nat (- snd x)
      else - ((- fst x) div 2 ^ nat (- snd x)))"

text \<open>The real number that a float stands for.\<close>

definition float_val :: "pyfloat \<Rightarrow> real" where
  "float_val x = real_of_int (fst x) * 2 powr real_of_int (snd x)"

text \<open>The literals \<open>1.97\<close> and \<open>0.30\<close> as binary64 values.\<close>

definition PAY_MULTI :: pyfloat where
  "PAY_MULTI = (8872091265919877, - 52)"

definition POT_CUT :: pyfloat where
  "POT_CUT = (5404319552844595, - 54)"

text \<open>\<open>int(round(amt * PAY_MULTI))\<close>\<close>

definition payout_of :: "int \<Rightarrow> py_error + int" where
  "payout_of amt =
     (case int_times_float amt PAY_MULTI of Inl err \<Rightarrow> Inl err | Inr x \<Rightarrow> Inr (py_round x))"

text \<open>\<open>int(round(amt * (PAY_MULTI - 1)))\<close>\<close>

definition profit_of :: "int \<Rightarrow> py_error + int" where
  "profit_of amt =
     (case float_sub PAY_MULTI (1, 0) of
        Inl err \<Rightarrow> Inl err
      | Inr c \<Rightarrow> (case int_times_float amt c of Inl err \<Rightarrow> Inl err | Inr x \<Rightarrow> Inr (py_round x)))"

text \<open>\<open>int(round(winners_profit * 0.30))\<close>\<close>

definition cut_of :: "int \<Rightarrow> py_error + int" where
  "cut_of winners_profit =
     (case int_times_float winners_profit POT_CUT of
        Inl err \<Rightarrow> Inl err
      | Inr x \<Rightarrow> Inr (py_round x))"

text \<open>\<open>int(round(pot_amount * (stake / total_winner_stakes)))\<close>\<close>

definition share_of :: "int \<Rightarrow> int \<Rightarrow> int \<Rightarrow> py_error + int" where
  "share_of pot_amount stake total_winner_stakes =
     (case int_truediv stake total_winner_stakes of
        Inl err \<Rightarrow> Inl err
      | Inr q \<Rightarrow> (case int_times_float pot_amount q of
                   Inl err \<Rightarrow> Inl err
                 | Inr x \<Rightarrow> Inr (py_round x)))"

text \<open>\<open>int(pot_amount / len(winners))\<close>\<close>

definition equal_share_of :: "int \<Rightarrow> int \<Rightarrow> py_error + int" where
  "equal_share_of pot_amount n =
     (case int_truediv pot_amount n of Inl err \<Rightarrow> Inl err | Inr x \<Rightarrow> Inr (py_trunc x))"


section \<open>Randomness\<close>

text \<open>
  The module \<open>random\<close> is modelled by a stream of raw draws \<open>rng :: nat \<Rightarrow> nat\<close> and a
  position in it; every function that draws returns the new position.
  \<open>random.randint(1, 6)\<close> maps a raw draw into \<open>1..6\<close>, \<open>random.random()\<close> maps it to a
  multiple of \<open>2 ^ -53\<close> in \<open>[0, 1)\<close>.
\<close>

definition randint_1_6 :: "(nat \<Rightarrow> nat) \<Rightarrow> nat \<Rightarrow> int" where
  "randint_1_6 rng i = 1 + int (rng i mod 6)"

definition random_random :: "(nat \<Rightarrow> nat) \<Rightarrow> nat \<Rightarrow> pyfloat" where
  "random_random rng i = (int (rng i mod 2 ^ 53), - 53)"

text \<open>\<open>[random.randint(1,6) for _ in range(3)]\<close>\<close>

definition roll3 :: "(nat \<Rightarrow> nat) \<Rightarrow> nat \<Rightarrow> int list" where
  "roll3 rng i = [randint_1_6 rng i, randint_1_6 rng (i + 1), randint_1_6 rng (i + 2)]"

datatype side = T | X

text \<open>\<open>'T' if 11 <= total <= 17 else 'X'\<close>\<close>

definition side_of_total :: "int \<Rightarrow> side" where
  "side_of_total tot = (if 11 \<le> tot \<and> tot \<le> 17 then T else X)"

text \<open>
  The loop \<open>for _ in range(200)\<close> of \<open>generate_dice_for_side\<close>, by the number of attempts
  left; with none left the fallback roll is returned.
\<close>

fun generate_loop :: "nat \<Rightarrow> side \<Rightarrow> (nat \<Rightarrow> nat) \<Rightarrow> nat \<Rightarrow> int list \<times> nat" where
  "generate_loop 0 sd rng i = (roll3 rng i, i + 3)"
| "generate_loop (Suc n) sd rng i =
     (let d = roll3 rng i; tot = sum_list d; s = side_of_total tot
      in if s = sd then (d, i + 3) else generate_loop n sd rng (i + 3))"

definition generate_dice_for_side :: "side \<Rightarrow> (nat \<Rightarrow> nat) \<Rightarrow> nat \<Rightarrow> int list \<times> nat" where
  "generate_dice_for_side sd rng i = generate_loop 200 sd rng i"

section \<open>The stored data\<close>

text \<open>
  The global dictionary \<open>data\<close>.  User ids are integers (the keys \<open>str(uid)\<close> are in
  bijection with them).  Dictionaries that are only looked up by key are maps; the bets of a
  round and the payouts are iterated in insertion order and are association lists, written
  with \<open>AList.update\<close>, which replaces the value of a present key in place and appends an
  absent one, as a Python \<open>dict\<close> does.  \<open>save_data\<close> writes \<open>data\<close> to a file and does not
  change it; it has no counterpart here.
\<close>

record user =
  balance :: int
  first_bonus_given :: bool
  streak :: int
  best_streak :: int
  user_history :: "int list"

record bet =
  bet_side :: side
  amount :: int

datatype round_status = Idle | Open | Closed

record round_info =
  round_id :: int
  status :: round_status
  scheduled_roll_ts :: "int option"
  forced_next :: "string option"
  bias :: "(pyfloat \<times> pyfloat) option"

record hist_rec =
  hist_id :: int
  timestamp :: int
  dice :: "int list"
  hist_total :: int
  hist_side :: side
  hist_bets :: "(int \<times> bet) list"
  payouts :: "(int \<times> int) list"
  pot_before :: int
  pot_after :: int
  distributed_from_pot :: int

datatype request_status = Pending | Approved | Denied

record request =
  request_id :: int
  user_id :: int
  request_amount :: int
  request_time :: int
  request_status :: request_status
  admin_id :: "int option"

record data =
  users :: "int \<rightharpoonup> user"
  bets :: "int \<rightharpoonup> (int \<times> bet) list"
  round_cfg :: round_info
  history :: "hist_rec list"
  pot :: int
  withdraw_requests :: "request list"
  deposit_requests :: "request list"

record config =
  ADMINS :: "int list"
  ROLL_INTERVAL :: int

definition INITIAL_BONUS :: int where
  "INITIAL_BONUS = 10000"

definition MAX_BONUS_BET :: int where
  "MAX_BONUS_BET = 1000"

definition default_data :: data where
  "default_data =
     \<lparr>users = Map.empty, bets = Map.empty,
      round_cfg = \<lparr>round_id = 0, status = Idle, scheduled_roll_ts = None,
                   forced_next = None, bias = None\<rparr>,
      history = [], pot = 0, withdraw_requests = [], deposit_requests = []\<rparr>"

section \<open>Utilities\<close>

definition is_admin :: "config \<Rightarrow> int \<Rightarrow> bool" where
  "is_admin cfg uid = (uid \<in> set (ADMINS cfg))"

definition new_user :: user where
  "new_user = \<lparr>balance = 0, first_bonus_given = False, streak = 0, best_streak = 0,
               user_history = []\<rparr>"

definition ensure_user :: "int \<Rightarrow> data \<Rightarrow> data" where
  "ensure_user uid d =
     (case users d uid of
        None \<Rightarrow> d\<lparr>users := (users d)(uid \<mapsto> new_user)\<rparr>
      | Some u \<Rightarrow> d)"

text \<open>The entry of a user that \<open>ensure_user\<close> has made sure of.\<close>

definition the_user :: "data \<Rightarrow> int \<Rightarrow> user" where
  "the_user d uid = (case users d uid of None \<Rightarrow> new_user | Some u \<Rightarrow> u)"

definition update_user :: "int \<Rightarrow> (user \<Rightarrow> user) \<Rightarrow> data \<Rightarrow> data" where
  "update_user uid f d = d\<lparr>users := (users d)(uid \<mapsto> f (the_user d uid))\<rparr>"

definition give_first_bonus_if_needed :: "int \<Rightarrow> data \<Rightarrow> bool \<times> data" where
  "give_first_bonus_if_needed uid d =
     (let d1 = ensure_user uid d
      in if \<not> first_bonus_given (the_user d1 uid)
         then (True, update_user uid (\<lambda>u. u\<lparr>balance := balance u + INITIAL_BONUS,
                                              first_bonus_given := True\<rparr>) d1)
         else (False, d1))"

definition add_balance :: "int \<Rightarrow> int \<Rightarrow> data \<Rightarrow> data" where
  "add_balance uid amt d =
     update_user uid (\<lambda>u. u\<lparr>balance := balance u + amt\<rparr>) (ensure_user uid d)"

definition sub_balance :: "int \<Rightarrow> int \<Rightarrow> data \<Rightarrow> data" where
  "sub_balance uid amt d =
     update_user uid (\<lambda>u. u\<lparr>balance := balance u - amt\<rparr>) (ensure_user uid d)"

definition get_balance :: "int \<Rightarrow> data \<Rightarrow> int \<times> data" where
  "get_balance uid d = (let d1 = ensure_user uid d in (balance (the_user d1 uid), d1))"


section \<open>Bet and round logic\<close>

text \<open>\<open>open_new_round\<close>; \<open>now\<close> is \<open>int(time.time())\<close>.\<close>

definition open_new_round :: "config \<Rightarrow> int \<Rightarrow> data \<Rightarrow> int \<times> data" where
  "open_new_round cfg now d =
     (let rid = round_id (round_cfg d) + 1
      in (rid,
          d\<lparr>round_cfg := (round_cfg d)\<lparr>round_id := rid, status := Open,
                                        scheduled_roll_ts := Some (now + ROLL_INTERVAL cfg)\<rparr>,
            bets := (bets d)(rid \<mapsto> [])\<rparr>))"

text \<open>
  The choice of the dice in \<open>close_betting_and_roll\<close>: a forced side, else a side drawn
  with the bias, else a plain roll.
\<close>

definition choose_dice :: "data \<Rightarrow> (nat \<Rightarrow> nat) \<Rightarrow> nat \<Rightarrow> int list \<times> nat" where
  "choose_dice d rng i =
     (let forced = forced_next (round_cfg d)
      in if forced = Some ''T'' then generate_dice_for_side T rng i
         else if forced = Some ''X'' then generate_dice_for_side X rng i
         else (case bias (round_cfg d) of
                 Some b \<Rightarrow>
                   (let pT = fst b;
                        sd = (if float_less (random_random rng i) pT then T else X)
                    in generate_dice_for_side sd rng (i + 1))
               | None \<Rightarrow> (roll3 rng i, i + 3)))"

text \<open>The sum of the stakes of the bets on the side \<open>sd\<close>, and of those on the other side.\<close>

definition side_stake :: "side \<Rightarrow> (int \<times> bet) list \<Rightarrow> int" where
  "side_stake sd bs = sum_list (map (\<lambda>p. amount (snd p)) (filter (\<lambda>p. bet_side (snd p) = sd) bs))"

definition other_stake :: "side \<Rightarrow> (int \<times> bet) list \<Rightarrow> int" where
  "other_stake sd bs = sum_list (map (\<lambda>p. amount (snd p)) (filter (\<lambda>p. bet_side (snd p) \<noteq> sd) bs))"

text \<open>The loop that fills \<open>payouts\<close>.\<close>

fun payouts_loop :: "side \<Rightarrow> (int \<times> bet) list \<Rightarrow> (int \<times> int) list \<Rightarrow> py_error + (int \<times> int) list" where
  "payouts_loop sd [] acc = Inr acc"
| "payouts_loop sd (p # ps) acc =
     (if bet_side (snd p) = sd
      then (case payout_of (amount (snd p)) of
              Inl err \<Rightarrow> Inl err
            | Inr pay \<Rightarrow> payouts_loop sd ps (AList.update (fst p) pay acc))
      else payouts_loop sd ps (AList.update (fst p) 0 acc))"

text \<open>\<open>winners_profit\<close>: the sum over the winning bets of the rounded profit.\<close>

fun profit_sum :: "side \<Rightarrow> (int \<times> bet) list \<Rightarrow> py_error + int" where
  "profit_sum sd [] = Inr 0"
| "profit_sum sd (p # ps) =
     (if bet_side (snd p) = sd
      then (case profit_of (amount (snd p)) of
              Inl err \<Rightarrow> Inl err
            | Inr x \<Rightarrow> (case profit_sum sd ps of Inl err \<Rightarrow> Inl err | Inr t \<Rightarrow> Inr (x + t)))
      else profit_sum sd ps)"

text \<open>The loop over \<open>payouts.items()\<close> that credits the winners and updates the streaks.\<close>

fun credit_loop :: "(int \<times> int) list \<Rightarrow> data \<Rightarrow> data" where
  "credit_loop [] d = d"
| "credit_loop (p # ps) d =
     (let uid = fst p; pay = snd p
      in if 0 < pay
         then (let d1 = ensure_user uid (add_balance uid pay d);
                   d2 = update_user uid (\<lambda>u. u\<lparr>streak := streak u + 1\<rparr>) d1;
                   d3 = update_user uid (\<lambda>u. u\<lparr>best_streak := max (best_streak u) (streak u)\<rparr>) d2
               in credit_loop ps d3)
         else credit_loop ps (update_user uid (\<lambda>u. u\<lparr>streak := 0\<rparr>) (ensure_user uid d)))"

text \<open>
  The loop over \<open>winners\<close> of the jackpot; \<open>winners\<close> holds each winner with the bet that
  \<open>bets_for_round[str(uid)]\<close> looks up.  An exception leaves the balances credited so far.
\<close>

fun jackpot_loop :: "int \<Rightarrow> int \<Rightarrow> int \<Rightarrow> (int \<times> bet) list \<Rightarrow> data \<Rightarrow> (py_error \<times> data) + data" where
  "jackpot_loop pot_amount tws n [] d = Inr d"
| "jackpot_loop pot_amount tws n (w # ws) d =
     (case (if 0 < tws then share_of pot_amount (amount (snd w)) tws
            else equal_share_of pot_amount n) of
        Inl err \<Rightarrow> Inl (err, d)
      | Inr share \<Rightarrow> jackpot_loop pot_amount tws n ws (add_balance (fst w) share d))"

text \<open>The special pot distribution; returns \<open>distributed_from_pot\<close>.\<close>

definition jackpot :: "int list \<Rightarrow> (int \<times> bet) list \<Rightarrow> data \<Rightarrow> (py_error \<times> data) + (int \<times> data)" where
  "jackpot dc winners d =
     (if count_list dc 1 = 3 \<or> count_list dc 6 = 3
      then if winners \<noteq> []
           then (let pot_amount = pot d;
                     total_winner_stakes = sum_list (map (\<lambda>p. amount (snd p)) winners)
                 in case jackpot_loop pot_amount total_winner_stakes (int (length winners)) winners d of
                      Inl err \<Rightarrow> Inl err
                    | Inr d' \<Rightarrow> Inr (pot_amount, d'\<lparr>pot := 0\<rparr>))
           else Inr (0, d)
      else Inr (0, d))"

text \<open>
  The settlement between the roll and the jackpot check: payouts, pot contributions, credits
  and streaks.  An exception is returned with the data as they are when it is raised.
\<close>

definition settle :: "side \<Rightarrow> (int \<times> bet) list \<Rightarrow> data \<Rightarrow> (py_error \<times> data) + ((int \<times> int) list \<times> data)" where
  "settle sd bets_for_round d =
     (case payouts_loop sd bets_for_round [] of
        Inl err \<Rightarrow> Inl (err, d)
      | Inr pays \<Rightarrow>
          (let d1 = d\<lparr>pot := pot d + other_stake sd bets_for_round\<rparr>
           in case profit_sum sd bets_for_round of
                Inl err \<Rightarrow> Inl (err, d1)
              | Inr winners_profit \<Rightarrow>
                  (case cut_of winners_profit of
                     Inl err \<Rightarrow> Inl (err, d1)
                   | Inr winners_profit_cut \<Rightarrow>
                       Inr (pays, credit_loop pays (d1\<lparr>pot := pot d1 + winners_profit_cut\<rparr>)))))"

text \<open>
  \<open>close_betting_and_roll\<close>; \<open>now\<close> is \<open>int(time.time())\<close>.  The result is \<open>None\<close> or the
  history record, with the data and the position in the random stream.
\<close>

definition close_betting_and_roll ::
  "int \<Rightarrow> (nat \<Rightarrow> nat) \<Rightarrow> nat \<Rightarrow> data \<Rightarrow> (py_error \<times> data) + (hist_rec option \<times> data \<times> nat)" where
  "close_betting_and_roll now rng i d =
     (let rid = round_id (round_cfg d)
      in if status (round_cfg d) \<noteq> Open then Inr (None, d, i)
         else
           (let d1 = d\<lparr>round_cfg := (round_cfg d)\<lparr>status := Closed\<rparr>\<rparr>;
                rolled = choose_dice d1 rng i;
                dc = fst rolled;
                tot = sum_list dc;
                sd = side_of_total tot;
                pot0 = pot d1;
                bets_for_round = (case bets d1 rid of None \<Rightarrow> [] | Some bs \<Rightarrow> bs);
                winners = filter (\<lambda>p. bet_side (snd p) = sd) bets_for_round
            in case settle sd bets_for_round d1 of
                 Inl err \<Rightarrow> Inl err
               | Inr (pays, d2) \<Rightarrow>
                   (case jackpot dc winners d2 of
                      Inl err \<Rightarrow> Inl err
                    | Inr (distributed, d3) \<Rightarrow>
                        (case bets d3 rid of
                           None \<Rightarrow> Inl (KeyError, d3)
                         | Some bs \<Rightarrow>
                             (let hr = \<lparr>hist_id = rid, timestamp = now, dice = dc,
                                        hist_total = tot, hist_side = sd, hist_bets = bs,
                                        payouts = pays, pot_before = pot0, pot_after = pot d3,
                                        distributed_from_pot = distributed\<rparr>;
                                  d4 = d3\<lparr>history := history d3 @ [hr],
                                          bets := (bets d3)(rid := None),
                                          round_cfg := (round_cfg d3)\<lparr>status := Idle,
                                                                        forced_next := None\<rparr>\<rparr>
                              in Inr (Some hr, d4, snd rolled))))))"


section \<open>Bot handlers\<close>

text \<open>
  The handlers are modelled from the point where the message has passed the decorator
  \<open>run_in_group_only\<close> and its text has matched the handler's regular expression, so that
  they take the parsed user id, side and amount; an amount matched by \<open>[0-9]+\<close> is not
  negative.  What a handler says to the user is its reply value.
\<close>

definition start_cmd :: "int \<Rightarrow> data \<Rightarrow> bool \<times> data" where
  "start_cmd uid d = give_first_bonus_if_needed uid (ensure_user uid d)"

definition balance_cmd :: "int \<Rightarrow> data \<Rightarrow> int \<times> data" where
  "balance_cmd uid d = get_balance uid (ensure_user uid d)"

datatype bet_reply =
    BettingClosed
  | BonusLimit
  | InvalidAmount
  | InsufficientFunds
  | BetAccepted int int

definition handle_bet_command :: "int \<Rightarrow> side \<Rightarrow> int \<Rightarrow> data \<Rightarrow> bet_reply \<times> data" where
  "handle_bet_command uid sd amt d =
     (let rid = round_id (round_cfg d)
      in if status (round_cfg d) \<noteq> Open then (BettingClosed, d)
         else
           (let d1 = snd (get_balance uid (ensure_user uid d));
                bal = balance (the_user d1 uid)
            in if first_bonus_given (the_user d1 uid) \<and> bal = INITIAL_BONUS \<and> MAX_BONUS_BET < amt
               then (BonusLimit, d1)
               else if amt \<le> 0 then (InvalidAmount, d1)
               else if bal < amt then (InsufficientFunds, d1)
               else
                 (let d2 = sub_balance uid amt d1;
                      bids = (case bets d2 rid of None \<Rightarrow> [] | Some bs \<Rightarrow> bs);
                      d3 = d2\<lparr>bets := (bets d2)(rid \<mapsto>
                                 AList.update uid \<lparr>bet_side = sd, amount = amt\<rparr> bids)\<rparr>;
                      r = get_balance uid d3
                  in (BetAccepted rid (fst r), snd r))))"

text \<open>\<open>open_bet_cmd\<close>: \<open>None\<close> is the refusal of a caller who is not an admin.\<close>

definition open_bet_cmd :: "config \<Rightarrow> int \<Rightarrow> int \<Rightarrow> data \<Rightarrow> int option \<times> data" where
  "open_bet_cmd cfg now uid d =
     (if \<not> is_admin cfg uid then (None, d)
      else (let r = open_new_round cfg now d in (Some (fst r), snd r)))"

text \<open>\<open>now_ms\<close> is \<open>int(time.time()*1000)\<close>, the id of the new request.\<close>

definition new_request :: "int \<Rightarrow> int \<Rightarrow> int \<Rightarrow> int \<Rightarrow> request" where
  "new_request now_ms now uid amt =
     \<lparr>request_id = now_ms, user_id = uid, request_amount = amt, request_time = now,
      request_status = Pending, admin_id = None\<rparr>"

definition deposit_cmd :: "int \<Rightarrow> int \<Rightarrow> int \<Rightarrow> int \<Rightarrow> data \<Rightarrow> data" where
  "deposit_cmd now_ms now uid amt d =
     d\<lparr>deposit_requests := deposit_requests d @ [new_request now_ms now uid amt]\<rparr>"

datatype withdraw_reply = BelowMinimum | BalanceTooLow | RequestSent

definition withdraw_cmd :: "int \<Rightarrow> int \<Rightarrow> int \<Rightarrow> int \<Rightarrow> data \<Rightarrow> withdraw_reply \<times> data" where
  "withdraw_cmd now_ms now uid amt d =
     (if amt < 100000 then (BelowMinimum, d)
      else (let r = get_balance uid d
            in if fst r < amt then (BalanceTooLow, snd r)
               else (RequestSent,
                     (snd r)\<lparr>withdraw_requests :=
                               withdraw_requests (snd r) @ [new_request now_ms now uid amt]\<rparr>)))"

text \<open>
  The callback data of an inline button, parsed: the prefix and the request id, or the value
  after \<open>force_next:\<close>, or anything else.
\<close>

datatype callback =
    ApproveDeposit int
  | DenyDeposit int
  | ApproveWithdraw int
  | DenyWithdraw int
  | ForceNext string
  | OtherCallback

text \<open>
  \<open>for r in requests: if r['id']==rid: ...; return\<close>: the first request with the id is
  decided, in place.
\<close>

fun decide_first :: "int \<Rightarrow> request_status \<Rightarrow> int \<Rightarrow> request list \<Rightarrow> request list" where
  "decide_first rid st admin [] = []"
| "decide_first rid st admin (r # rs) =
     (if request_id r = rid then r\<lparr>request_status := st, admin_id := Some admin\<rparr> # rs
      else r # decide_first rid st admin rs)"

datatype callback_reply =
    NotAdmin
  | ApprovedDeposit
  | DeniedDeposit
  | ApprovedWithdraw
  | DeniedWithdraw
  | ForcedNext
  | NoAnswer

definition callback_query_handler :: "config \<Rightarrow> int \<Rightarrow> callback \<Rightarrow> data \<Rightarrow> callback_reply \<times> data" where
  "callback_query_handler cfg admin cb d =
     (if \<not> is_admin cfg admin then (NotAdmin, d)
      else
        (case cb of
           ApproveDeposit rid \<Rightarrow>
             (case find (\<lambda>r. request_id r = rid) (deposit_requests d) of
                None \<Rightarrow> (NoAnswer, d)
              | Some r \<Rightarrow>
                  (ApprovedDeposit,
                   add_balance (user_id r) (request_amount r)
                     (d\<lparr>deposit_requests := decide_first rid Approved admin (deposit_requests d)\<rparr>)))
         | DenyDeposit rid \<Rightarrow>
             (case find (\<lambda>r. request_id r = rid) (deposit_requests d) of
                None \<Rightarrow> (NoAnswer, d)
              | Some r \<Rightarrow>
                  (DeniedDeposit,
                   d\<lparr>deposit_requests := decide_first rid Denied admin (deposit_requests d)\<rparr>))
         | ApproveWithdraw rid \<Rightarrow>
             (case find (\<lambda>r. request_id r = rid) (withdraw_requests d) of
                None \<Rightarrow> (NoAnswer, d)
              | Some r \<Rightarrow>
                  (ApprovedWithdraw,
                   sub_balance (user_id r) (request_amount r)
                     (d\<lparr>withdraw_requests := decide_first rid Approved admin (withdraw_requests d)\<rparr>)))
         | DenyWithdraw rid \<Rightarrow>
             (case find (\<lambda>r. request_id r = rid) (withdraw_requests d) of
                None \<Rightarrow> (NoAnswer, d)
              | Some r \<Rightarrow>
                  (DeniedWithdraw,
                   d\<lparr>withdraw_requests := decide_first rid Denied admin (withdraw_requests d)\<rparr>))
         | ForceNext v \<Rightarrow> (ForcedNext, d\<lparr>round_cfg := (round_cfg d)\<lparr>forced_next := Some v\<rparr>\<rparr>)
         | OtherCallback \<Rightarrow> (NoAnswer, d)))"

text \<open>\<open>admin_setnext\<close>; \<open>v\<close> is \<open>parts[1].upper()\<close>.\<close>

definition admin_setnext :: "config \<Rightarrow> int \<Rightarrow> string \<Rightarrow> data \<Rightarrow> data" where
  "admin_setnext cfg uid v d =
     (if \<not> is_admin cfg uid then d
      else if v \<noteq> ''T'' \<and> v \<noteq> ''X'' \<and> v \<noteq> ''NONE'' then d
      else if v = ''NONE'' then d\<lparr>round_cfg := (round_cfg d)\<lparr>forced_next := None\<rparr>\<rparr>
      else d\<lparr>round_cfg := (round_cfg d)\<lparr>forced_next := Some v\<rparr>\<rparr>)"

text \<open>\<open>admin_setbias\<close>; \<open>v\<close> is the parsed float, and \<open>1 - v\<close> is stored with it.\<close>

definition admin_setbias :: "config \<Rightarrow> int \<Rightarrow> pyfloat \<Rightarrow> data \<Rightarrow> data" where
  "admin_setbias cfg uid v d =
     (if \<not> is_admin cfg uid then d
      else if float_less v (0, 0) \<or> float_less (1, 0) v then d
      else (case float_sub (1, 0) v of
              Inl err \<Rightarrow> d
            | Inr w \<Rightarrow> d\<lparr>round_cfg := (round_cfg d)\<lparr>bias := Some (v, w)\<rparr>\<rparr>))"

text \<open>\<open>admin_credit\<close>; the amount is any integer.\<close>

definition admin_credit :: "config \<Rightarrow> int \<Rightarrow> int \<Rightarrow> int \<Rightarrow> data \<Rightarrow> data" where
  "admin_credit cfg uid target amt d =
     (if \<not> is_admin cfg uid then d else add_balance target amt d)"

section \<open>The operations of the program\<close>

text \<open>
  Every way in which the program changes \<open>data\<close>: the commands, the callback of the inline
  buttons and the two actions of the scheduler loop (which opens a round only when the
  status is idle).  The commands \<open>/history\<close>, \<open>/leaderboard\<close> and \<open>/pot\<close> only read.
\<close>

datatype operation =
    OpStart int
  | OpBalance int
  | OpBet int side int
  | OpOpenBet int int
  | OpDeposit int int int int
  | OpWithdraw int int int int
  | OpCallback int callback
  | OpSetNext int string
  | OpSetBias int pyfloat
  | OpCredit int int int
  | OpReadOnly
  | OpSchedulerOpen int
  | OpSchedulerClose int "nat \<Rightarrow> nat" nat

text \<open>The data after an operation, also when the operation ends in an exception.\<close>

fun run_operation :: "config \<Rightarrow> operation \<Rightarrow> data \<Rightarrow> data" where
  "run_operation cfg (OpStart uid) d = snd (start_cmd uid d)"
| "run_operation cfg (OpBalance uid) d = snd (balance_cmd uid d)"
| "run_operation cfg (OpBet uid sd amt) d = snd (handle_bet_command uid sd amt d)"
| "run_operation cfg (OpOpenBet now uid) d = snd (open_bet_cmd cfg now uid d)"
| "run_operation cfg (OpDeposit now_ms now uid amt) d = deposit_cmd now_ms now uid amt d"
| "run_operation cfg (OpWithdraw now_ms now uid amt) d = snd (withdraw_cmd now_ms now uid amt d)"
| "run_operation cfg (OpCallback admin cb) d = snd (callback_query_handler cfg admin cb d)"
| "run_operation cfg (OpSetNext uid v) d = admin_setnext cfg uid v d"
| "run_operation cfg (OpSetBias uid v) d = admin_setbias cfg uid v d"
| "run_operation cfg (OpCredit uid target amt) d = admin_credit cfg uid target amt d"
| "run_operation cfg OpReadOnly d = d"
| "run_operation cfg (OpSchedulerOpen now) d =
     (if status (round_cfg d) = Idle then snd (open_new_round cfg now d) else d)"
| "run_operation cfg (OpSchedulerClose now rng i) d =
     (case close_betting_and_roll now rng i d of
        Inl (err, d') \<Rightarrow> d'
      | Inr (res, d', i') \<Rightarrow> d')"

section \<open>Relations between the data before and after an operation\<close>

text \<open>Every user entry is still there, with the same (\<open>best_kept\<close>) or with a best streak
  that is not lower (\<open>best_grows\<close>).\<close>

definition best_kept :: "data \<Rightarrow> data \<Rightarrow> bool" where
  "best_kept d d' =
     (\<forall>uid u. users d uid = Some u \<longrightarrow>
        (\<exists>u'. users d' uid = Some u' \<and> best_streak u' = best_streak u))"

definition best_grows :: "data \<Rightarrow> data \<Rightarrow> bool" where
  "best_grows d d' =
     (\<forall>uid u. users d uid = Some u \<longrightarrow>
        (\<exists>u'. users d' uid = Some u' \<and> best_streak u \<le> best_streak u'))"

text \<open>The data \<open>d'\<close> differ from \<open>d\<close> in the user entries at most.\<close>

definition only_users_changed :: "data \<Rightarrow> data \<Rightarrow> bool" where
  "only_users_changed d d' = (d' = d\<lparr>users := users d'\<rparr>)"

text \<open>The bounds on a rounded profit and on the cut, as predicates of the argument (an
  argument too large for a float has no result to bound).\<close>

definition profit_ok :: "int \<Rightarrow> bool" where
  "profit_ok n = (case profit_of n of Inl err \<Rightarrow> True | Inr p \<Rightarrow> 0 \<le> p \<and> p \<le> n)"

definition cut_ok :: "int \<Rightarrow> bool" where
  "cut_ok n = (case cut_of n of Inl err \<Rightarrow> True | Inr c \<Rightarrow> 0 \<le> c \<and> 2 * c \<le> n)"

text \<open>The bets of every round have distinct keys, as a Python \<open>dict\<close> has, and positive
  stakes.\<close>

definition bets_wf :: "data \<Rightarrow> bool" where
  "bets_wf d =
     (\<forall>rid bs. bets d rid = Some bs \<longrightarrow>
        distinct (map fst bs) \<and> (\<forall>p\<in>set bs. 0 < amount (snd p)))"

section \<open>Example data\<close>

text \<open>
  A configuration with the single admin 1, and data in which round 1 is open, with no bet
  yet, for the users 7 and 8 (neither has received the first bonus).
\<close>

definition example_config :: config where
  "example_config = \<lparr>ADMINS = [1], ROLL_INTERVAL = 60\<rparr>"

definition example_user :: "int \<Rightarrow> user" where
  "example_user b =
     \<lparr>balance = b, first_bonus_given = False, streak = 0, best_streak = 0, user_history = []\<rparr>"

definition example_open :: data where
  "example_open =
     \<lparr>users = [7 \<mapsto> example_user 150000, 8 \<mapsto> example_user 3000], bets = [1 \<mapsto> []],
      round_cfg = \<lparr>round_id = 1, status = Open, scheduled_roll_ts = Some 1060,
                   forced_next = None, bias = None\<rparr>,
      history = [], pot = 0, withdraw_requests = [], deposit_requests = []\<rparr>"

text \<open>The data after round 1 has been resolved with no bet, by three dice showing 4.\<close>

definition example_hist :: hist_rec where
  "example_hist =
     \<lparr>hist_id = 1, timestamp = 1060, dice = [4, 4, 4], hist_total = 12, hist_side = T,
      hist_bets = [], payouts = [], pot_before = 0, pot_after = 0, distributed_from_pot = 0\<rparr>"

definition example_resolved :: data where
  "example_resolved =
     \<lparr>users = [7 \<mapsto> example_user 150000, 8 \<mapsto> example_user 3000], bets = Map.empty,
      round_cfg = \<lparr>round_id = 1, status = Idle, scheduled_roll_ts = Some 1060,
                   forced_next = None, bias = None\<rparr>,
      history = [example_hist], pot = 0, withdraw_requests = [], deposit_requests = []\<rparr>"

text \<open>Data with a deposit request that admin 1 has approved and a withdraw request that
  admin 1 has denied.\<close>

definition example_deposit :: request where
  "example_deposit =
     \<lparr>request_id = 6000, user_id = 8, request_amount = 500, request_time = 6,
      request_status = Approved, admin_id = Some 1\<rparr>"

definition example_withdraw :: request where
  "example_withdraw =
     \<lparr>request_id = 5000, user_id = 7, request_amount = 150000, request_time = 5,
      request_status = Denied, admin_id = Some 1\<rparr>"

definition example_decided :: data where
  "example_decided =
     example_open\<lparr>withdraw_requests := [example_withdraw], deposit_requests := [example_deposit]\<rparr>"

text \<open>Round 1 with two bets placed, 1000 on \<open>T\<close> by user 7 and 500 on \<open>X\<close> by user 8 (the
  stakes are debited already), and 5000 in the pot.\<close>

definition example_bets :: data where
  "example_bets =
     example_open\<lparr>users := [7 \<mapsto> example_user 149000, 8 \<mapsto> example_user 2500],
                  bets := [1 \<mapsto> [(7, \<lparr>bet_side = T, amount = 1000\<rparr>),
                                  (8, \<lparr>bet_side = X, amount = 500\<rparr>)]],
                  pot := 5000\<rparr>"

text \<open>The bets of the example resolved by three dice showing 4 (total 12, \<open>T\<close> wins): user 7
  is paid 1970, the pot receives the losing stake 500 and the cut 291.\<close>

definition example_hist_T :: hist_rec where
  "example_hist_T =
     \<lparr>hist_id = 1, timestamp = 1060, dice = [4, 4, 4], hist_total = 12, hist_side = T,
      hist_bets = [(7, \<lparr>bet_side = T, amount = 1000\<rparr>), (8, \<lparr>bet_side = X, amount = 500\<rparr>)],
      payouts = [(7, 1970), (8, 0)], pot_before = 5000, pot_after = 5791,
      distributed_from_pot = 0\<rparr>"

definition example_after_T :: data where
  "example_after_T =
     \<lparr>users = [7 \<mapsto> \<lparr>balance = 150970, first_bonus_given = False, streak = 1,
                      best_streak = 1, user_history = []\<rparr>,
               8 \<mapsto> example_user 2500],
      bets = Map.empty,
      round_cfg = \<lparr>round_id = 1, status = Idle, scheduled_roll_ts = Some 1060,
                   forced_next = None, bias = None\<rparr>,
      history = [example_hist_T], pot = 5791, withdraw_requests = [], deposit_requests = []\<rparr>"

text \<open>The same bets resolved by three dice showing 6 (total 18, \<open>X\<close> wins, jackpot): user 8
  is paid 985, the pot grows by the losing stake 1000 and the cut 146 to 6146, and the whole
  of it goes to user 8, the only winner.\<close>

definition example_hist_666 :: hist_rec where
  "example_hist_666 =
     \<lparr>hist_id = 1, timestamp = 1060, dice = [6, 6, 6], hist_total = 18, hist_side = X,
      hist_bets = [(7, \<lparr>bet_side = T, amount = 1000\<rparr>), (8, \<lparr>bet_side = X, amount = 500\<rparr>)],
      payouts = [(7, 0), (8, 985)], pot_before = 5000, pot_after = 0,
      distributed_from_pot = 6146\<rparr>"

definition example_after_666 :: data where
  "example_after_666 =
     \<lparr>users = [7 \<mapsto> example_user 149000,
               8 \<mapsto> \<lparr>balance = 9631, first_bonus_given = False, streak = 1,
                      best_streak = 1, user_history = []\<rparr>],
      bets = Map.empty,
      round_cfg = \<lparr>round_id = 1, status = Idle, scheduled_roll_ts = Some 1060,
                   forced_next = None, bias = None\<rparr>,
      history = [example_hist_666], pot = 0, withdraw_requests = [], deposit_requests = []\<rparr>"

text \<open>Round 1 with the single bet of 1000 on \<open>T\<close> by user 7, and its resolution by three
  dice showing 4: the payout is 1970 and the pot still receives the cut 291.\<close>

definition example_single :: data where
  "example_single =
     example_open\<lparr>users := [7 \<mapsto> example_user 149000, 8 \<mapsto> example_user 3000],
                  bets := [1 \<mapsto> [(7, \<lparr>bet_side = T, amount = 1000\<rparr>)]],
                  pot := 5000\<rparr>"

definition example_hist_single :: hist_rec where
  "example_hist_single =
     \<lparr>hist_id = 1, timestamp = 1060, dice = [4, 4, 4], hist_total = 12, hist_side = T,
      hist_bets = [(7, \<lparr>bet_side = T, amount = 1000\<rparr>)],
      payouts = [(7, 1970)], pot_before = 5000, pot_after = 5291,
      distributed_from_pot = 0\<rparr>"

definition example_after_single :: data where
  "example_after_single =
     \<lparr>users = [8 \<mapsto> example_user 3000,
               7 \<mapsto> \<lparr>balance = 150970, first_bonus_given = False, streak = 1,
                      best_streak = 1, user_history = []\<rparr>],
      bets = Map.empty,
      round_cfg = \<lparr>round_id = 1, status = Idle, scheduled_roll_ts = Some 1060,
                   forced_next = None, bias = None\<rparr>,
      history = [example_hist_single], pot = 5291, withdraw_requests = [],
      deposit_requests = []\<rparr>"

text \<open>Round 1 with three bets placed, 300 on \<open>X\<close> by user 7, 700 on \<open>X\<close> by user 8 and 500
  on \<open>T\<close> by user 9, and 5000 in the pot; and its resolution by three dice showing 6 (total
  18, \<open>X\<close> wins, jackpot): the users 7 and 8 are paid 591 and 1379, the pot grows by the
  losing stake 500 and the cut 291 to 5791, of which user 7 receives 1737 and user 8
  receives 4054.\<close>

definition example_jackpot :: data where
  "example_jackpot =
     example_open\<lparr>users := [7 \<mapsto> example_user 149700, 8 \<mapsto> example_user 2300,
                            9 \<mapsto> example_user 500],
                  bets := [1 \<mapsto> [(7, \<lparr>bet_side = X, amount = 300\<rparr>),
                                  (8, \<lparr>bet_side = X, amount = 700\<rparr>),
                                  (9, \<lparr>bet_side = T, amount = 500\<rparr>)]],
                  pot := 5000\<rparr>"

definition example_hist_jackpot :: hist_rec where
  "example_hist_jackpot =
     \<lparr>hist_id = 1, timestamp = 1060, dice = [6, 6, 6], hist_total = 18, hist_side = X,
      hist_bets = [(7, \<lparr>bet_side = X, amount = 300\<rparr>), (8, \<lparr>bet_side = X, amount = 700\<rparr>),
                   (9, \<lparr>bet_side = T, amount = 500\<rparr>)],
      payouts = [(7, 591), (8, 1379), (9, 0)], pot_before = 5000, pot_after = 0,
      distributed_from_pot = 5791\<rparr>"

definition example_after_jackpot :: data where
  "example_after_jackpot =
     \<lparr>users = [9 \<mapsto> example_user 500,
               7 \<mapsto> \<lparr>balance = 152028, first_bonus_given = False, streak = 1,
                      best_streak = 1, user_history = []\<rparr>,
               8 \<mapsto> \<lparr>balance = 7733, first_bonus_given = False, streak = 1,
                      best_streak = 1, user_history = []\<rparr>],
      bets = Map.empty,
      round_cfg = \<lparr>round_id = 1, status = Idle, scheduled_roll_ts = Some 1060,
                   forced_next = None, bias = None\<rparr>,
      history = [example_hist_jackpot], pot = 0, withdraw_requests = [],
      deposit_requests = []\<rparr>"

section \<open>Evaluation of the float model on numerals\<close>

lemma bitlen_0 [simp]: "bitlen 0 = 0"
  by (simp add: bitlen.simps)

lemma bitlen_Suc_0 [simp]: "bitlen (Suc 0) = Suc 0"
  by (simp add: bitlen.simps)

lemma bitlen_One [simp]: "bitlen (numeral Num.One) = Suc 0"
  by (simp add: bitlen.simps)

lemma bitlen_Bit0 [simp]: "bitlen (numeral (Num.Bit0 n)) = Suc (bitlen (numeral n))"
  by (subst bitlen.simps) simp

lemma bitlen_Bit1 [simp]: "bitlen (numeral (Num.Bit1 n)) = Suc (bitlen (numeral n))"
  by (subst bitlen.simps) simp

lemmas float_defs = rne_div_def round_shift_def drop_bits_def check_overflow_def fl_round_def
  float_of_int_def float_mul_def mant_at_def float_sub_def float_less_def int_times_float_def
  quotient_shift_def sticky_quotient_def pos_truediv_def int_truediv_def py_round_def py_trunc_def
  PAY_MULTI_def POT_CUT_def payout_of_def profit_of_def cut_of_def share_of_def equal_share_of_def

text \<open>The scenarios of the specification: a stake of 1000 pays 1970, of which 970 are
  profit, and 30% of that profit are 291.\<close>

lemma payout_of_1000: "payout_of 1000 = Inr 1970"
  by (simp add: float_defs)

lemma profit_of_1000: "profit_of 1000 = Inr 970"
  by (simp add: float_defs)

lemma cut_of_970: "cut_of 970 = Inr 291"
  by (simp add: float_defs)

section \<open>The dice sampler\<close>

lemma roll3_length: "length (roll3 rng i) = 3"
  by (simp add: roll3_def)

lemma randint_1_6_range: "1 \<le> randint_1_6 rng i \<and> randint_1_6 rng i \<le> 6"
proof -
  have "rng i mod 6 < 6" by simp
  then show ?thesis unfolding randint_1_6_def by linarith
qed

lemma roll3_range: "x \<in> set (roll3 rng i) \<Longrightarrow> 1 \<le> x \<and> x \<le> 6"
  using randint_1_6_range by (auto simp: roll3_def)

lemma generate_loop_is_roll:
  "generate_loop n sd rng i = (d, j) \<Longrightarrow> \<exists>p. d = roll3 rng p"
proof (induction n arbitrary: i)
  case 0
  then show ?case by auto
next
  case (Suc n)
  then show ?case
    by (cases "side_of_total (sum_list (roll3 rng i)) = sd") (auto simp: Let_def)
qed

text \<open>With \<open>n\<close> attempts allowed the loop makes \<open>k \<le> n + 1\<close> rolls of three dice, the last
  of them being the fallback when \<open>k = n + 1\<close>.\<close>

lemma generate_loop_attempts:
  "generate_loop n sd rng i = (d, j) \<Longrightarrow>
     \<exists>k. 1 \<le> k \<and> k \<le> n + 1 \<and> j = i + 3 * k \<and>
         (k \<le> n \<longrightarrow> side_of_total (sum_list d) = sd)"
proof (induction n arbitrary: i)
  case 0
  then have "j = i + 3 * 1" by auto
  then show ?case by (intro exI[of _ 1]) simp
next
  case (Suc n)
  show ?case
  proof (cases "side_of_total (sum_list (roll3 rng i)) = sd")
    case True
    with Suc.prems have "j = i + 3 * 1 \<and> d = roll3 rng i"
      by (auto simp: Let_def)
    with True show ?thesis by (intro exI[of _ 1]) simp
  next
    case False
    with Suc.prems have "generate_loop n sd rng (i + 3) = (d, j)"
      by (simp add: Let_def)
    from Suc.IH[OF this] obtain k where k: "1 \<le> k" "k \<le> n + 1" "j = i + 3 + 3 * k"
      "k \<le> n \<longrightarrow> side_of_total (sum_list d) = sd"
      by blast
    then show ?thesis by (intro exI[of _ "Suc k"]) auto
  qed
qed

text \<open>
  Claim C9.  \<open>generate_dice_for_side\<close> is a total function: for every requested side and
  every random stream it returns after \<open>k\<close> rolls of three dice with \<open>1 \<le> k \<le> 201\<close>, that
  is after at most 200 constrained attempts and one fallback roll (the position in the
  stream advances by \<open>3 * k\<close>); it returns exactly three dice, each between 1 and 6; and
  when it returns within the 200 attempts (\<open>k \<le> 200\<close>) the total of the dice maps to the
  requested side.
\<close>

theorem generate_dice_for_side_bounded:
  assumes "generate_dice_for_side sd rng i = (d, j)"
  shows "length d = 3 \<and> (\<forall>x\<in>set d. 1 \<le> x \<and> x \<le> 6) \<and>
         (\<exists>k. 1 \<le> k \<and> k \<le> 201 \<and> j = i + 3 * k \<and>
              (k \<le> 200 \<longrightarrow> side_of_total (sum_list d) = sd))"
proof -
  from assms have loop: "generate_loop 200 sd rng i = (d, j)"
    by (simp add: generate_dice_for_side_def)
  from generate_loop_is_roll[OF loop] obtain p where p: "d = roll3 rng p" by blast
  have "length d = 3" using p roll3_length by simp
  moreover have "\<forall>x\<in>set d. 1 \<le> x \<and> x \<le> 6" using p roll3_range by blast
  moreover have "\<exists>k. 1 \<le> k \<and> k \<le> 201 \<and> j = i + 3 * k \<and>
              (k \<le> 200 \<longrightarrow> side_of_total (sum_list d) = sd)"
    using generate_loop_attempts[OF loop] by simp
  ultimately show ?thesis by blast
qed

text \<open>A stream whose draws all give the die 4: the first attempt totals 12 and is
  returned for the side \<open>T\<close>.\<close>

theorem generate_dice_for_side_bounded_witness:
  "generate_dice_for_side T (\<lambda>n. 3) 0 = ([4, 4, 4], 3) \<and>
   length [4, 4, 4 :: int] = 3 \<and> set [4, 4, 4 :: int] \<subseteq> {1..6} \<and>
   (\<exists>k. 1 \<le> k \<and> k \<le> 201 \<and> (3::nat) = 0 + 3 * k \<and> k \<le> 200) \<and>
   side_of_total (sum_list [4, 4, 4]) = T"
proof -
  have h: "generate_dice_for_side T (\<lambda>n. 3) 0 = ([4, 4, 4], 3)" by code_simp
  have "\<exists>k. 1 \<le> k \<and> k \<le> 201 \<and> (3::nat) = 0 + 3 * k \<and>
              (k \<le> 200 \<longrightarrow> side_of_total (sum_list [4, 4, 4]) = T)"
    using generate_dice_for_side_bounded[OF h] by blast
  then obtain k where k: "1 \<le> k" "k \<le> 201" "(3::nat) = 0 + 3 * k"
    "k \<le> 200 \<longrightarrow> side_of_total (sum_list [4, 4, 4]) = T" by blast
  from k(3) have "k \<le> 200" by simp
  with k have "(\<exists>k. 1 \<le> k \<and> k \<le> 201 \<and> (3::nat) = 0 + 3 * k \<and> k \<le> 200) \<and>
     side_of_total (sum_list [4, 4, 4]) = T" by blast
  with h show ?thesis by simp
qed

text \<open>A stream whose draws all give the die 6 never totals 11 to 17: for the side \<open>T\<close> all
  200 attempts fail and the fallback roll, the 201st, is returned although it maps to
  \<open>X\<close>.\<close>

lemma generate_dice_for_side_fallback:
  "generate_dice_for_side T (\<lambda>n. 5) 0 = ([6, 6, 6], 603)"
  by code_simp

section \<open>Evaluation on the example data\<close>

lemmas state_defs = ensure_user_def the_user_def update_user_def add_balance_def sub_balance_def
  get_balance_def new_user_def INITIAL_BONUS_def MAX_BONUS_BET_def

lemmas example_defs = example_config_def example_user_def example_open_def example_hist_def
  example_resolved_def example_deposit_def example_withdraw_def example_decided_def

lemma cut_of_0: "cut_of 0 = Inr 0"
  by (simp add: float_defs)

lemmas close_defs = close_betting_and_roll_def choose_dice_def roll3_def randint_1_6_def
  side_of_total_def settle_def jackpot_def other_stake_def side_stake_def

lemma example_open_resolves:
  "close_betting_and_roll 1060 (\<lambda>n. 3) 0 example_open = Inr (Some example_hist, example_resolved, 3)"
  by (simp add: close_defs example_defs example_hist_def example_resolved_def cut_of_0 Let_def)

section \<open>Balances\<close>

lemma balance_add_balance:
  "balance (the_user (add_balance uid amt d) uid) = balance (the_user d uid) + amt"
  by (simp add: add_balance_def update_user_def ensure_user_def the_user_def new_user_def split: option.splits)

lemma balance_sub_balance:
  "balance (the_user (sub_balance uid amt d) uid) = balance (the_user d uid) - amt"
  by (simp add: sub_balance_def update_user_def ensure_user_def the_user_def new_user_def split: option.splits)

section \<open>Placing bets\<close>

text \<open>What an accepted bet does: the stake is positive and covered by the balance, it is
  debited, and the bet is stored under the user's id in the bets of the current round.\<close>

lemma handle_bet_command_accepted:
  assumes "handle_bet_command uid sd amt d = (BetAccepted rid bal, d')"
  shows "status (round_cfg d) = Open \<and> rid = round_id (round_cfg d) \<and> 0 < amt \<and>
         amt \<le> balance (the_user d uid) \<and>
         balance (the_user d' uid) = balance (the_user d uid) - amt \<and>
         bal = balance (the_user d' uid) \<and>
         bets d' rid = Some (AList.update uid \<lparr>bet_side = sd, amount = amt\<rparr>
                              (case bets d rid of None \<Rightarrow> [] | Some bs \<Rightarrow> bs))"
  using assms
  by (auto simp: handle_bet_command_def Let_def state_defs split: if_splits option.splits)

text \<open>
  Claim C1 (the code departs from it).  In round 1 of the example data user 7, whose
  balance is 150000, bets 100 and then 200 on the same side.  Both bets are accepted and
  both stakes are debited, 300 in all, but the bets of the round hold the single record of
  the second bet, with the stake 200: the first record is overwritten and its stake is
  neither refunded nor recorded.
\<close>

theorem second_bet_overwrites_first:
  "fst (handle_bet_command 7 T 100 example_open) = BetAccepted 1 149900 \<and>
   fst (handle_bet_command 7 T 200 (snd (handle_bet_command 7 T 100 example_open)))
     = BetAccepted 1 149700 \<and>
   balance (the_user example_open 7)
     - balance (the_user (snd (handle_bet_command 7 T 200
                                (snd (handle_bet_command 7 T 100 example_open)))) 7) = 300 \<and>
   bets (snd (handle_bet_command 7 T 200 (snd (handle_bet_command 7 T 100 example_open)))) 1
     = Some [(7, \<lparr>bet_side = T, amount = 200\<rparr>)]"
  by (simp add: handle_bet_command_def example_defs state_defs Let_def)

section \<open>Debits\<close>

text \<open>The bet handler never debits more than the balance: a stake above the balance is
  refused and changes neither the balance nor the bets.\<close>

lemma handle_bet_command_refuses_overdraft:
  assumes "balance (the_user d uid) < amt"
  shows "fst (handle_bet_command uid sd amt d) \<in> {BettingClosed, BonusLimit, InvalidAmount, InsufficientFunds} \<and>
         balance (the_user (snd (handle_bet_command uid sd amt d)) uid) = balance (the_user d uid) \<and>
         bets (snd (handle_bet_command uid sd amt d)) = bets d"
  using assms
  by (auto simp: handle_bet_command_def Let_def state_defs split: if_splits option.splits)

text \<open>
  Claim C5 (the code departs from it).  User 7 of the example data, with the balance
  150000, requests a withdrawal of 150000, which is accepted as a pending request because
  the balance covers it; the user then bets 1000, and the admin approves the request.  The
  approval debits 150000 from the balance 149000 without any check and leaves the balance
  at -1000.
\<close>

theorem approved_withdraw_overdraws:
  "fst (withdraw_cmd 5000 5 7 150000 example_open) = RequestSent \<and>
   fst (handle_bet_command 7 T 1000 (snd (withdraw_cmd 5000 5 7 150000 example_open)))
     = BetAccepted 1 149000 \<and>
   fst (callback_query_handler example_config 1 (ApproveWithdraw 5000)
         (snd (handle_bet_command 7 T 1000 (snd (withdraw_cmd 5000 5 7 150000 example_open)))))
     = ApprovedWithdraw \<and>
   balance (the_user (snd (callback_query_handler example_config 1 (ApproveWithdraw 5000)
         (snd (handle_bet_command 7 T 1000 (snd (withdraw_cmd 5000 5 7 150000 example_open)))))) 7)
     = - 1000"
  by (simp add: withdraw_cmd_def handle_bet_command_def callback_query_handler_def is_admin_def
      new_request_def example_defs state_defs Let_def)

section \<open>Decisions on deposit and withdraw requests\<close>

lemma find_decide_first:
  "find (\<lambda>r. request_id r = rid) rs = Some r \<Longrightarrow>
   find (\<lambda>r. request_id r = rid) (decide_first rid st admin rs)
     = Some (r\<lparr>request_status := st, admin_id := Some admin\<rparr>)"
  by (induction rs) (auto split: if_splits)

text \<open>
  Claim C6, as stated, fails: the deposit request 6000 of user 8 (500 on a balance of 3000)
  is approved twice.  The first approval sets its status to \<open>Approved\<close> and credits 500; the
  second approval of the same, already approved request is answered in the same way and
  credits 500 again, to 4000.
\<close>

theorem second_approval_credits_again:
  "fst (callback_query_handler example_config 1 (ApproveDeposit 6000)
         (deposit_cmd 6000 6 8 500 example_open)) = ApprovedDeposit \<and>
   map request_status (deposit_requests (snd (callback_query_handler example_config 1 (ApproveDeposit 6000)
         (deposit_cmd 6000 6 8 500 example_open)))) = [Approved] \<and>
   balance (the_user (snd (callback_query_handler example_config 1 (ApproveDeposit 6000)
         (deposit_cmd 6000 6 8 500 example_open))) 8) = 3500 \<and>
   fst (callback_query_handler example_config 1 (ApproveDeposit 6000)
         (snd (callback_query_handler example_config 1 (ApproveDeposit 6000)
           (deposit_cmd 6000 6 8 500 example_open)))) = ApprovedDeposit \<and>
   balance (the_user (snd (callback_query_handler example_config 1 (ApproveDeposit 6000)
         (snd (callback_query_handler example_config 1 (ApproveDeposit 6000)
           (deposit_cmd 6000 6 8 500 example_open))))) 8) = 4000"
  by (simp add: deposit_cmd_def callback_query_handler_def is_admin_def
      new_request_def example_defs state_defs Let_def)

text \<open>
  Claim C6, amended.  The handler of the admin's decision never reads the status of a
  request: for an admin and a request with the given id, whatever its status, an approval
  is answered as an approval, marks the request \<open>Approved\<close> with the admin's id and credits
  the amount of a deposit request to (debits the amount of a withdraw request from) the
  user's balance; a denial is answered as a denial, marks the request \<open>Denied\<close> with the
  admin's id and changes no user entry.
\<close>

theorem decisions_ignore_status:
  assumes "is_admin cfg admin"
  shows
   "(find (\<lambda>r. request_id r = rid) (deposit_requests d) = Some r \<longrightarrow>
       fst (callback_query_handler cfg admin (ApproveDeposit rid) d) = ApprovedDeposit \<and>
       balance (the_user (snd (callback_query_handler cfg admin (ApproveDeposit rid) d)) (user_id r))
         = balance (the_user d (user_id r)) + request_amount r \<and>
       find (\<lambda>r. request_id r = rid)
            (deposit_requests (snd (callback_query_handler cfg admin (ApproveDeposit rid) d)))
         = Some (r\<lparr>request_status := Approved, admin_id := Some admin\<rparr>) \<and>
       fst (callback_query_handler cfg admin (DenyDeposit rid) d) = DeniedDeposit \<and>
       users (snd (callback_query_handler cfg admin (DenyDeposit rid) d)) = users d \<and>
       find (\<lambda>r. request_id r = rid)
            (deposit_requests (snd (callback_query_handler cfg admin (DenyDeposit rid) d)))
         = Some (r\<lparr>request_status := Denied, admin_id := Some admin\<rparr>)) \<and>
    (find (\<lambda>r. request_id r = wid) (withdraw_requests d) = Some w \<longrightarrow>
       fst (callback_query_handler cfg admin (ApproveWithdraw wid) d) = ApprovedWithdraw \<and>
       balance (the_user (snd (callback_query_handler cfg admin (ApproveWithdraw wid) d)) (user_id w))
         = balance (the_user d (user_id w)) - request_amount w \<and>
       find (\<lambda>r. request_id r = wid)
            (withdraw_requests (snd (callback_query_handler cfg admin (ApproveWithdraw wid) d)))
         = Some (w\<lparr>request_status := Approved, admin_id := Some admin\<rparr>) \<and>
       fst (callback_query_handler cfg admin (DenyWithdraw wid) d) = DeniedWithdraw \<and>
       users (snd (callback_query_handler cfg admin (DenyWithdraw wid) d)) = users d \<and>
       find (\<lambda>r. request_id r = wid)
            (withdraw_requests (snd (callback_query_handler cfg admin (DenyWithdraw wid) d)))
         = Some (w\<lparr>request_status := Denied, admin_id := Some admin\<rparr>))"
proof -
  have dep: "balance (the_user (add_balance u a (d\<lparr>deposit_requests := x\<rparr>)) u)
      = balance (the_user d u) + a" for u a x
    using balance_add_balance[of u a "d\<lparr>deposit_requests := x\<rparr>"] by (simp add: the_user_def)
  have wd: "balance (the_user (sub_balance u a (d\<lparr>withdraw_requests := x\<rparr>)) u)
      = balance (the_user d u) - a" for u a x
    using balance_sub_balance[of u a "d\<lparr>withdraw_requests := x\<rparr>"] by (simp add: the_user_def)
  have dep2: "deposit_requests (add_balance u a d0) = deposit_requests d0" for u a d0
    by (simp add: add_balance_def update_user_def ensure_user_def split: option.splits)
  have wd2: "withdraw_requests (sub_balance u a d0) = withdraw_requests d0" for u a d0
    by (simp add: sub_balance_def update_user_def ensure_user_def split: option.splits)
  show ?thesis
    using assms by (simp add: callback_query_handler_def dep wd dep2 wd2 find_decide_first)
qed

text \<open>The deposit request of the example is approved already and the withdraw request is
  denied already; approving them credits 500 and debits 150000 all the same.\<close>

theorem decisions_ignore_status_witness:
  "is_admin example_config 1 \<and>
   find (\<lambda>r. request_id r = 6000) (deposit_requests example_decided) = Some example_deposit \<and>
   find (\<lambda>r. request_id r = 5000) (withdraw_requests example_decided) = Some example_withdraw \<and>
   request_status example_deposit = Approved \<and> request_status example_withdraw = Denied \<and>
   fst (callback_query_handler example_config 1 (ApproveDeposit 6000) example_decided) = ApprovedDeposit \<and>
   balance (the_user (snd (callback_query_handler example_config 1 (ApproveDeposit 6000) example_decided)) 8)
     = 3000 + 500 \<and>
   fst (callback_query_handler example_config 1 (ApproveWithdraw 5000) example_decided) = ApprovedWithdraw \<and>
   balance (the_user (snd (callback_query_handler example_config 1 (ApproveWithdraw 5000) example_decided)) 7)
     = 150000 - 150000"
proof -
  have a: "is_admin example_config 1" by (simp add: is_admin_def example_defs)
  have d: "find (\<lambda>r. request_id r = 6000) (deposit_requests example_decided) = Some example_deposit"
    by (simp add: example_defs)
  have w: "find (\<lambda>r. request_id r = 5000) (withdraw_requests example_decided) = Some example_withdraw"
    by (simp add: example_defs)
  have b: "balance (the_user example_decided 8) = 3000" "balance (the_user example_decided 7) = 150000"
    "user_id example_deposit = 8" "user_id example_withdraw = 7"
    "request_amount example_deposit = 500" "request_amount example_withdraw = 150000"
    "request_status example_deposit = Approved" "request_status example_withdraw = Denied"
    by (simp_all add: example_defs the_user_def)
  show ?thesis
    using a d w b decisions_ignore_status[OF a, where rid = 6000 and d = example_decided and r = example_deposit
        and wid = 5000 and w = example_withdraw]
    by simp
qed

section \<open>Opening a round\<close>

text \<open>
  Claim C7, as stated, fails: while round 1 of the example data is open, the admin's
  \<open>/openbet\<close> succeeds; it returns the new round id 2 and changes the data (round 2 is open
  with an empty bet set, next to the bets of round 1).
\<close>

theorem open_while_open:
  "open_bet_cmd example_config 2000 1 example_open =
     (Some 2, example_open\<lparr>round_cfg := \<lparr>round_id = 2, status = Open, scheduled_roll_ts = Some 2060,
                   forced_next = None, bias = None\<rparr>, bets := [1 \<mapsto> [], 2 \<mapsto> []]\<rparr>)"
  by (simp add: open_bet_cmd_def open_new_round_def is_admin_def example_defs Let_def)

text \<open>
  Claim C7, amended.  \<open>open_new_round\<close> checks no status and never fails: from every state
  it allocates the round id that follows the current one, sets the status to \<open>Open\<close>,
  schedules the roll at \<open>now + ROLL_INTERVAL\<close>, initialises an empty bet set for the new id
  and returns the id.  The admin command \<open>/openbet\<close> calls it in every status (and refuses a
  caller who is not an admin without changing the data); the scheduler calls it only when
  the status is \<open>Idle\<close> and otherwise changes nothing.
\<close>

theorem open_new_round_unguarded:
  "fst (open_new_round cfg now d) = round_id (round_cfg d) + 1 \<and>
   round_id (round_cfg (snd (open_new_round cfg now d))) = round_id (round_cfg d) + 1 \<and>
   status (round_cfg (snd (open_new_round cfg now d))) = Open \<and>
   scheduled_roll_ts (round_cfg (snd (open_new_round cfg now d))) = Some (now + ROLL_INTERVAL cfg) \<and>
   bets (snd (open_new_round cfg now d)) (round_id (round_cfg d) + 1) = Some [] \<and>
   (is_admin cfg uid \<longrightarrow>
      open_bet_cmd cfg now uid d = (Some (round_id (round_cfg d) + 1), snd (open_new_round cfg now d))) \<and>
   (\<not> is_admin cfg uid \<longrightarrow> open_bet_cmd cfg now uid d = (None, d)) \<and>
   (status (round_cfg d) \<noteq> Idle \<longrightarrow> run_operation cfg (OpSchedulerOpen now) d = d) \<and>
   (status (round_cfg d) = Idle \<longrightarrow>
      run_operation cfg (OpSchedulerOpen now) d = snd (open_new_round cfg now d))"
  by (simp add: open_new_round_def open_bet_cmd_def Let_def)

theorem open_new_round_unguarded_witness:
  "is_admin example_config 1 \<and> status (round_cfg example_open) \<noteq> Idle \<and>
   open_bet_cmd example_config 2000 1 example_open
     = (Some 2, snd (open_new_round example_config 2000 example_open)) \<and>
   status (round_cfg (snd (open_new_round example_config 2000 example_open))) = Open \<and>
   bets (snd (open_new_round example_config 2000 example_open)) 2 = Some [] \<and>
   run_operation example_config (OpSchedulerOpen 2000) example_open = example_open"
  using open_new_round_unguarded[of example_config 2000 example_open 1]
  by (simp add: is_admin_def example_defs)

section \<open>Resolving a round twice\<close>

lemma close_not_open:
  "status (round_cfg d) \<noteq> Open \<Longrightarrow> close_betting_and_roll now rng i d = Inr (None, d, i)"
  by (simp add: close_betting_and_roll_def)

lemma close_result_idle:
  assumes "close_betting_and_roll now rng i d = Inr (Some hr, d', i')"
  shows "status (round_cfg d') = Idle"
proof -
  have "status (round_cfg d) = Open"
    using assms by (cases "status (round_cfg d) = Open") (simp_all add: close_betting_and_roll_def)
  with assms show ?thesis
    by (auto simp: close_betting_and_roll_def Let_def split: sum.splits prod.splits option.splits)
qed

text \<open>
  Claim C4, as stated, fails: round 1 of the example data is resolved to the record
  \<open>example_hist\<close>; a second call does not return that record.
\<close>

theorem second_resolve_returns_no_result:
  "close_betting_and_roll 1060 (\<lambda>n. 3) 0 example_open = Inr (Some example_hist, example_resolved, 3) \<and>
   close_betting_and_roll 1061 (\<lambda>n. 3) 3 example_resolved \<noteq> Inr (Some example_hist, example_resolved, 3)"
  using example_open_resolves by (simp add: close_not_open example_resolved_def)

text \<open>
  Claim C4, amended.  After \<open>close_betting_and_roll\<close> has resolved a round and returned its
  record, a further call (at any time, with any random stream) changes nothing in the data
  (no balance, pot, streak, history or round field) and returns \<open>None\<close>, not the record of
  the round.
\<close>

theorem second_resolve_is_noop:
  assumes "close_betting_and_roll now rng i d = Inr (Some hr, d', i')"
  shows "close_betting_and_roll now2 rng2 i2 d' = Inr (None, d', i2)"
  using close_result_idle[OF assms] by (simp add: close_not_open)

theorem second_resolve_is_noop_witness:
  "close_betting_and_roll 1060 (\<lambda>n. 3) 0 example_open = Inr (Some example_hist, example_resolved, 3) \<and>
   close_betting_and_roll 1061 (\<lambda>n. 5) 3 example_resolved = Inr (None, example_resolved, 3)"
  using example_open_resolves second_resolve_is_noop[OF example_open_resolves] by simp

section \<open>Settlement of the example bets\<close>

lemmas example_defs2 = example_defs example_bets_def example_hist_T_def example_after_T_def
  example_hist_666_def example_after_666_def

lemma payout_of_500: "payout_of 500 = Inr 985"
  by (simp add: float_defs)

lemma profit_of_500: "profit_of 500 = Inr 485"
  by (simp add: float_defs)

lemma cut_of_485: "cut_of 485 = Inr 146"
  by (simp add: float_defs)

lemma share_of_sole_winner: "share_of 6146 500 500 = Inr 6146"
  by (simp add: float_defs)

lemma example_bets_T:
  "close_betting_and_roll 1060 (\<lambda>n. 3) 0 example_bets
     = Inr (Some example_hist_T, example_after_T, 3)"
  by (simp add: close_defs example_defs2 state_defs payout_of_1000 profit_of_1000 cut_of_970 Let_def)

lemma example_bets_666:
  "close_betting_and_roll 1060 (\<lambda>n. 5) 0 example_bets
     = Inr (Some example_hist_666, example_after_666, 3)"
  by (simp add: close_defs example_defs2 state_defs payout_of_500 profit_of_500 cut_of_485
      share_of_sole_winner Let_def)

section \<open>The best streak\<close>

lemma best_kept_refl [simp]: "best_kept d d"
  by (simp add: best_kept_def)

lemma best_kept_trans: "best_kept a b \<Longrightarrow> best_kept b c \<Longrightarrow> best_kept a c"
  unfolding best_kept_def by fastforce

lemma best_grows_refl [simp]: "best_grows d d"
  by (simp add: best_grows_def)

lemma best_grows_trans: "best_grows a b \<Longrightarrow> best_grows b c \<Longrightarrow> best_grows a c"
  unfolding best_grows_def by (meson order_trans)

lemma best_kept_grows: "best_kept a b \<Longrightarrow> best_grows a b"
  unfolding best_kept_def best_grows_def by fastforce

lemma best_kept_same_users: "users d' = users d \<Longrightarrow> best_kept d d'"
  by (simp add: best_kept_def)

lemma best_kept_ensure_user: "best_kept d (ensure_user uid d)"
  by (auto simp: best_kept_def ensure_user_def split: option.splits)

lemma best_kept_update_user:
  "(\<And>u. best_streak (f u) = best_streak u) \<Longrightarrow> best_kept d (update_user uid f d)"
  by (auto simp: best_kept_def update_user_def the_user_def)

lemma best_grows_update_user:
  "(\<And>u. best_streak u \<le> best_streak (f u)) \<Longrightarrow> best_grows d (update_user uid f d)"
  by (auto simp: best_grows_def update_user_def the_user_def)

lemma best_kept_add_balance: "best_kept d (add_balance uid amt d)"
  unfolding add_balance_def
  by (rule best_kept_trans[OF best_kept_ensure_user[of d uid]]) (simp add: best_kept_update_user)

lemma best_kept_sub_balance: "best_kept d (sub_balance uid amt d)"
  unfolding sub_balance_def
  by (rule best_kept_trans[OF best_kept_ensure_user[of d uid]]) (simp add: best_kept_update_user)

lemma best_kept_get_balance: "best_kept d (snd (get_balance uid d))"
  by (simp add: get_balance_def Let_def best_kept_ensure_user)

lemma best_kept_give_first_bonus: "best_kept d (snd (give_first_bonus_if_needed uid d))"
proof -
  have 1: "best_kept d (ensure_user uid d)" by (rule best_kept_ensure_user)
  have 2: "best_kept (ensure_user uid d)
     (update_user uid (\<lambda>u. u\<lparr>balance := balance u + INITIAL_BONUS, first_bonus_given := True\<rparr>)
        (ensure_user uid d))"
    by (rule best_kept_update_user) simp
  show ?thesis
    using 1 best_kept_trans[OF 1 2] by (simp add: give_first_bonus_if_needed_def Let_def)
qed

lemma best_kept_start_cmd: "best_kept d (snd (start_cmd uid d))"
  unfolding start_cmd_def
  by (rule best_kept_trans[OF best_kept_ensure_user[of d uid] best_kept_give_first_bonus])

lemma best_kept_balance_cmd: "best_kept d (snd (balance_cmd uid d))"
  unfolding balance_cmd_def
  by (rule best_kept_trans[OF best_kept_ensure_user[of d uid] best_kept_get_balance])

lemma best_kept_bets_update: "best_kept d d' \<Longrightarrow> best_kept d (d'\<lparr>bets := b\<rparr>)"
  by (simp add: best_kept_def)

lemma best_kept_handle_bet: "best_kept d (snd (handle_bet_command uid sd amt d))"
proof -
  let ?d1 = "snd (get_balance uid (ensure_user uid d))"
  have 1: "best_kept d ?d1"
    by (rule best_kept_trans[OF best_kept_ensure_user[of d uid] best_kept_get_balance])
  have 2: "best_kept d (sub_balance uid amt ?d1)"
    by (rule best_kept_trans[OF 1 best_kept_sub_balance])
  have 3: "best_kept d (snd (get_balance uid ((sub_balance uid amt ?d1)\<lparr>bets := b\<rparr>)))" for b
    by (rule best_kept_trans[OF best_kept_bets_update[OF 2] best_kept_get_balance])
  show ?thesis
    using 1 3 by (simp add: handle_bet_command_def Let_def)
qed

lemma best_kept_open_new_round: "best_kept d (snd (open_new_round cfg now d))"
  by (simp add: open_new_round_def Let_def best_kept_def)

lemma best_kept_open_bet_cmd: "best_kept d (snd (open_bet_cmd cfg now uid d))"
  by (simp add: open_bet_cmd_def Let_def best_kept_open_new_round)

lemma best_kept_deposit_cmd: "best_kept d (deposit_cmd now_ms now uid amt d)"
  by (simp add: deposit_cmd_def best_kept_def)

lemma best_kept_withdraw_requests_update:
  "best_kept d d' \<Longrightarrow> best_kept d (d'\<lparr>withdraw_requests := b\<rparr>)"
  by (simp add: best_kept_def)

lemma best_kept_withdraw_cmd: "best_kept d (snd (withdraw_cmd now_ms now uid amt d))"
  by (simp add: withdraw_cmd_def Let_def best_kept_get_balance best_kept_withdraw_requests_update)

lemma best_kept_callback: "best_kept d (snd (callback_query_handler cfg admin cb d))"
proof -
  have a: "best_kept d (add_balance u a (d\<lparr>deposit_requests := x\<rparr>))" for u a x
    by (rule best_kept_trans[OF _ best_kept_add_balance]) (simp add: best_kept_def)
  have s: "best_kept d (sub_balance u a (d\<lparr>withdraw_requests := x\<rparr>))" for u a x
    by (rule best_kept_trans[OF _ best_kept_sub_balance]) (simp add: best_kept_def)
  have r: "best_kept d (d\<lparr>deposit_requests := x\<rparr>)" "best_kept d (d\<lparr>withdraw_requests := x\<rparr>)"
    "best_kept d (d\<lparr>round_cfg := y\<rparr>)" for x y
    by (simp_all add: best_kept_def)
  show ?thesis
    by (cases cb) (simp_all add: callback_query_handler_def a s r split: option.splits)
qed

lemma best_kept_admin_setnext: "best_kept d (admin_setnext cfg uid v d)"
  by (simp add: admin_setnext_def best_kept_def)

lemma best_kept_admin_setbias: "best_kept d (admin_setbias cfg uid v d)"
  by (simp add: admin_setbias_def best_kept_def split: sum.splits)

lemma best_kept_admin_credit: "best_kept d (admin_credit cfg uid target amt d)"
  by (simp add: admin_credit_def best_kept_add_balance)


lemma best_grows_credit_loop: "best_grows d (credit_loop ps d)"
proof (induction ps arbitrary: d)
  case Nil
  show ?case by simp
next
  case (Cons p ps)
  show ?case
  proof (cases "0 < snd p")
    case True
    let ?d1 = "ensure_user (fst p) (add_balance (fst p) (snd p) d)"
    let ?d2 = "update_user (fst p) (\<lambda>u. u\<lparr>streak := streak u + 1\<rparr>) ?d1"
    let ?d3 = "update_user (fst p) (\<lambda>u. u\<lparr>best_streak := max (best_streak u) (streak u)\<rparr>) ?d2"
    have "best_kept d ?d1"
      by (rule best_kept_trans[OF best_kept_add_balance best_kept_ensure_user])
    moreover have "best_kept ?d1 ?d2"
      by (rule best_kept_update_user) simp
    ultimately have "best_grows d ?d2"
      using best_kept_trans best_kept_grows by blast
    moreover have "best_grows ?d2 ?d3"
      by (rule best_grows_update_user) simp
    ultimately have "best_grows d ?d3"
      by (rule best_grows_trans)
    from best_grows_trans[OF this Cons.IH[of ?d3]] True show ?thesis
      by (simp add: Let_def)
  next
    case False
    let ?d1 = "update_user (fst p) (\<lambda>u. u\<lparr>streak := 0\<rparr>) (ensure_user (fst p) d)"
    have "best_kept (ensure_user (fst p) d) ?d1"
      by (rule best_kept_update_user) simp
    then have "best_grows d ?d1"
      using best_kept_trans[OF best_kept_ensure_user] best_kept_grows by blast
    from best_grows_trans[OF this Cons.IH[of ?d1]] False show ?thesis
      by (simp add: Let_def)
  qed
qed

lemma best_kept_jackpot_loop:
  "jackpot_loop pa tws n ws d = Inl (err, d') \<or> jackpot_loop pa tws n ws d = Inr d'
     \<Longrightarrow> best_kept d d'"
proof (induction ws arbitrary: d)
  case Nil
  then show ?case by simp
next
  case (Cons w ws)
  show ?case
  proof (cases "if 0 < tws then share_of pa (amount (snd w)) tws else equal_share_of pa n")
    case (Inl e)
    with Cons.prems show ?thesis by simp
  next
    case (Inr share)
    with Cons.prems have "jackpot_loop pa tws n ws (add_balance (fst w) share d) = Inl (err, d')
        \<or> jackpot_loop pa tws n ws (add_balance (fst w) share d) = Inr d'"
      by simp
    from best_kept_trans[OF best_kept_add_balance Cons.IH[OF this]] show ?thesis .
  qed
qed

lemma best_kept_jackpot:
  assumes "jackpot dc winners d = Inl (err, d') \<or> jackpot dc winners d = Inr (paid, d')"
  shows "best_kept d d'"
proof (cases "(count_list dc 1 = 3 \<or> count_list dc 6 = 3) \<and> winners \<noteq> []")
  case False
  with assms show ?thesis by (auto simp: jackpot_def split: if_splits)
next
  case True
  let ?r = "jackpot_loop (pot d) (sum_list (map (\<lambda>p. amount (snd p)) winners))
              (int (length winners)) winners d"
  show ?thesis
  proof (cases ?r)
    case (Inl e)
    with assms True have "?r = Inl (err, d')"
      by (simp add: jackpot_def Let_def)
    then show ?thesis using best_kept_jackpot_loop by blast
  next
    case (Inr d2)
    with assms True have d': "d' = d2\<lparr>pot := 0\<rparr>"
      by (simp add: jackpot_def Let_def)
    have "best_kept d d2" using Inr best_kept_jackpot_loop by blast
    then show ?thesis unfolding d' by (simp add: best_kept_def)
  qed
qed

lemma best_grows_settle:
  assumes "settle sd bs d = Inl (err, d') \<or> settle sd bs d = Inr (pays, d')"
  shows "best_grows d d'"
proof -
  have pot: "best_grows d (d\<lparr>pot := x\<rparr>)" for x by (simp add: best_grows_def)
  have cl: "best_grows d (credit_loop ps (d\<lparr>pot := x\<rparr>))" for ps x
    by (rule best_grows_trans[OF pot best_grows_credit_loop])
  show ?thesis
    using assms pot cl
    by (auto simp: settle_def Let_def split: sum.splits)
qed

lemma best_grows_close:
  assumes "close_betting_and_roll now rng i d = Inl (err, d')
           \<or> close_betting_and_roll now rng i d = Inr (res, d', i')"
  shows "best_grows d d'"
proof (cases "status (round_cfg d) = Open")
  case False
  with assms show ?thesis by (simp add: close_betting_and_roll_def)
next
  case True
  define d1 where "d1 = d\<lparr>round_cfg := (round_cfg d)\<lparr>status := Closed\<rparr>\<rparr>"
  define dc where "dc = fst (choose_dice d1 rng i)"
  define sd where "sd = side_of_total (sum_list dc)"
  define bs where "bs = (case bets d1 (round_id (round_cfg d)) of None \<Rightarrow> [] | Some bs \<Rightarrow> bs)"
  have g1: "best_grows d d1" by (simp add: d1_def best_grows_def)
  show ?thesis
  proof (cases "settle sd bs d1")
    case (Inl e)
    with assms True have "settle sd bs d1 = Inl (err, d')"
      by (simp add: close_betting_and_roll_def Let_def d1_def dc_def sd_def bs_def)
    then show ?thesis using best_grows_settle best_grows_trans[OF g1] by blast
  next
    case (Inr r)
    obtain pays d2 where r: "r = (pays, d2)" by (cases r)
    have g2: "best_grows d d2"
      using Inr r best_grows_settle best_grows_trans[OF g1] by blast
    show ?thesis
    proof (cases "jackpot dc (filter (\<lambda>p. bet_side (snd p) = sd) bs) d2")
      case (Inl e)
      with assms True Inr r have "jackpot dc (filter (\<lambda>p. bet_side (snd p) = sd) bs) d2 = Inl (err, d')"
        by (simp add: close_betting_and_roll_def Let_def d1_def dc_def sd_def bs_def)
      then have "best_kept d2 d'" using best_kept_jackpot by blast
      then show ?thesis using g2 best_grows_trans best_kept_grows by blast
    next
      case (Inr q)
      obtain paid d3 where q: "q = (paid, d3)" by (cases q)
      have "best_kept d2 d3" using Inr q best_kept_jackpot by blast
      then have g3: "best_grows d d3" using g2 best_grows_trans best_kept_grows by blast
      have "d' = d3 \<or> (\<exists>h b r. d' = d3\<lparr>history := h, bets := b, round_cfg := r\<rparr>)"
        using assms True \<open>settle sd bs d1 = Inr r\<close> r Inr q
        by (auto simp: close_betting_and_roll_def Let_def d1_def dc_def sd_def bs_def
            split: option.splits)
      then show ?thesis using g3 by (auto simp: best_grows_def)
    qed
  qed
qed

lemma best_keptD:
  assumes "best_kept d d'" and "users d uid = Some u"
  shows "\<exists>u'. users d' uid = Some u' \<and> best_streak u \<le> best_streak u' \<and>
              best_streak u' = best_streak u"
proof -
  from assms obtain u' where "users d' uid = Some u'" "best_streak u' = best_streak u"
    unfolding best_kept_def by blast
  then show ?thesis by simp
qed

text \<open>
  Claim C10.  Under every operation of the program (each command, the callback of the
  inline buttons, the two actions of the scheduler; also when the settlement ends in an
  exception) a user entry that exists stays, and its \<open>best_streak\<close> does not decrease; under
  every operation other than the settlement \<open>close_betting_and_roll\<close> it is unchanged.  (In
  the settlement it is written by \<open>credit_loop\<close> only, to
  \<open>max (best_streak u) (streak u)\<close> after the streak of a winner is incremented.)
\<close>

theorem best_streak_never_decreases:
  assumes "users d uid = Some u"
  shows "\<exists>u'. users (run_operation cfg op d) uid = Some u' \<and>
              best_streak u \<le> best_streak u' \<and>
              ((\<forall>now rng i. op \<noteq> OpSchedulerClose now rng i) \<longrightarrow> best_streak u' = best_streak u)"
proof (cases op)
  case (OpSchedulerClose now rng i)
  have "best_grows d (run_operation cfg op d)"
  proof (cases "close_betting_and_roll now rng i d")
    case (Inl e)
    obtain err d' where e: "e = (err, d')" by (cases e)
    from best_grows_close[of now rng i d err d'] Inl e OpSchedulerClose show ?thesis
      by simp
  next
    case (Inr r)
    obtain res d' i' where r: "r = (res, d', i')" by (cases r)
    from best_grows_close[of now rng i d _ d' res i'] Inr r OpSchedulerClose show ?thesis
      by simp
  qed
  with assms OpSchedulerClose show ?thesis by (auto simp: best_grows_def)
next
  case (OpStart x)
  with best_keptD[OF best_kept_start_cmd[of d x] assms] show ?thesis by simp
next
  case (OpBalance x)
  with best_keptD[OF best_kept_balance_cmd[of d x] assms] show ?thesis by simp
next
  case (OpBet x sd amt)
  with best_keptD[OF best_kept_handle_bet[of d x sd amt] assms] show ?thesis by simp
next
  case (OpOpenBet now x)
  with best_keptD[OF best_kept_open_bet_cmd[of d cfg now x] assms] show ?thesis by simp
next
  case (OpDeposit a b c e)
  with best_keptD[OF best_kept_deposit_cmd[of d a b c e] assms] show ?thesis by simp
next
  case (OpWithdraw a b c e)
  with best_keptD[OF best_kept_withdraw_cmd[of d a b c e] assms] show ?thesis by simp
next
  case (OpCallback a cb)
  with best_keptD[OF best_kept_callback[of d cfg a cb] assms] show ?thesis by simp
next
  case (OpSetNext a v)
  with best_keptD[OF best_kept_admin_setnext[of d cfg a v] assms] show ?thesis by simp
next
  case (OpSetBias a v)
  with best_keptD[OF best_kept_admin_setbias[of d cfg a v] assms] show ?thesis by simp
next
  case (OpCredit a b c)
  with best_keptD[OF best_kept_admin_credit[of d cfg a b c] assms] show ?thesis by simp
next
  case OpReadOnly
  with assms show ?thesis by simp
next
  case (OpSchedulerOpen now)
  with best_keptD[OF best_kept_open_new_round[of d cfg now] assms] assms show ?thesis by simp
qed

text \<open>The settlement of the example bets raises the best streak of user 7, the winner,
  from 0 to 1.\<close>

theorem best_streak_never_decreases_witness:
  "users example_bets 7 = Some (example_user 149000) \<and>
   best_streak (example_user 149000) = 0 \<and>
   users (run_operation example_config (OpSchedulerClose 1060 (\<lambda>n. 3) 0) example_bets) 7
     = Some \<lparr>balance = 150970, first_bonus_given = False, streak = 1, best_streak = 1,
             user_history = []\<rparr> \<and>
   (\<exists>u'. users (run_operation example_config (OpSchedulerClose 1060 (\<lambda>n. 3) 0) example_bets) 7
            = Some u' \<and> best_streak (example_user 149000) \<le> best_streak u')"
proof -
  have u: "users example_bets 7 = Some (example_user 149000)"
    by (simp add: example_defs2)
  have r: "users (run_operation example_config (OpSchedulerClose 1060 (\<lambda>n. 3) 0) example_bets) 7
     = Some \<lparr>balance = 150970, first_bonus_given = False, streak = 1, best_streak = 1,
             user_history = []\<rparr>"
    by (simp add: example_bets_T example_after_T_def)
  from best_streak_never_decreases[OF u, of example_config "OpSchedulerClose 1060 (\<lambda>n. 3) 0"]
  have "\<exists>u'. users (run_operation example_config (OpSchedulerClose 1060 (\<lambda>n. 3) 0) example_bets) 7
            = Some u' \<and> best_streak (example_user 149000) \<le> best_streak u'"
    by blast
  with u r show ?thesis by (simp add: example_user_def)
qed

section \<open>What the settlement changes\<close>

lemma only_users_changed_refl [simp]: "only_users_changed d d"
  by (simp add: only_users_changed_def)

lemma only_users_changed_trans:
  "only_users_changed a b \<Longrightarrow> only_users_changed b c \<Longrightarrow> only_users_changed a c"
  unfolding only_users_changed_def by (metis data.surjective data.update_convs(1))

lemma only_users_changedD:
  assumes "only_users_changed d d'"
  shows "pot d' = pot d" "bets d' = bets d" "round_cfg d' = round_cfg d"
        "history d' = history d" "withdraw_requests d' = withdraw_requests d"
        "deposit_requests d' = deposit_requests d"
proof -
  from assms have e: "d' = d\<lparr>users := users d'\<rparr>" by (simp add: only_users_changed_def)
  show "pot d' = pot d" by (subst e) simp
  show "bets d' = bets d" by (subst e) simp
  show "round_cfg d' = round_cfg d" by (subst e) simp
  show "history d' = history d" by (subst e) simp
  show "withdraw_requests d' = withdraw_requests d" by (subst e) simp
  show "deposit_requests d' = deposit_requests d" by (subst e) simp
qed

lemma only_users_ensure_user: "only_users_changed d (ensure_user uid d)"
  by (simp add: only_users_changed_def ensure_user_def split: option.splits)

lemma only_users_update_user: "only_users_changed d (update_user uid f d)"
  by (simp add: only_users_changed_def update_user_def)

lemma only_users_add_balance: "only_users_changed d (add_balance uid amt d)"
  unfolding add_balance_def
  by (rule only_users_changed_trans[OF only_users_ensure_user only_users_update_user])

lemma only_users_credit_loop: "only_users_changed d (credit_loop ps d)"
proof (induction ps arbitrary: d)
  case Nil
  show ?case by simp
next
  case (Cons p ps)
  show ?case
  proof (cases "0 < snd p")
    case True
    let ?d1 = "ensure_user (fst p) (add_balance (fst p) (snd p) d)"
    let ?d2 = "update_user (fst p) (\<lambda>u. u\<lparr>streak := streak u + 1\<rparr>) ?d1"
    let ?d3 = "update_user (fst p) (\<lambda>u. u\<lparr>best_streak := max (best_streak u) (streak u)\<rparr>) ?d2"
    have "only_users_changed d ?d1"
      by (rule only_users_changed_trans[OF only_users_add_balance only_users_ensure_user])
    then have "only_users_changed d ?d2"
      by (rule only_users_changed_trans[OF _ only_users_update_user])
    then have "only_users_changed d ?d3"
      by (rule only_users_changed_trans[OF _ only_users_update_user])
    from only_users_changed_trans[OF this Cons.IH[of ?d3]] True show ?thesis
      by (simp add: Let_def)
  next
    case False
    let ?d1 = "update_user (fst p) (\<lambda>u. u\<lparr>streak := 0\<rparr>) (ensure_user (fst p) d)"
    have "only_users_changed d ?d1"
      by (rule only_users_changed_trans[OF only_users_ensure_user only_users_update_user])
    from only_users_changed_trans[OF this Cons.IH[of ?d1]] False show ?thesis
      by (simp add: Let_def)
  qed
qed

lemma only_users_jackpot_loop:
  "jackpot_loop pa tws n ws d = Inr d' \<Longrightarrow> only_users_changed d d'"
proof (induction ws arbitrary: d)
  case Nil
  then show ?case by simp
next
  case (Cons w ws)
  show ?case
  proof (cases "if 0 < tws then share_of pa (amount (snd w)) tws else equal_share_of pa n")
    case (Inl e)
    with Cons.prems show ?thesis by simp
  next
    case (Inr share)
    with Cons.prems have "jackpot_loop pa tws n ws (add_balance (fst w) share d) = Inr d'"
      by simp
    from only_users_changed_trans[OF only_users_add_balance Cons.IH[OF this]] show ?thesis .
  qed
qed

lemma balance_ensure_user [simp]:
  "balance (the_user (ensure_user uid d) v) = balance (the_user d v)"
  by (simp add: ensure_user_def the_user_def new_user_def split: option.splits)

lemma the_user_ensure_user [simp]: "the_user (ensure_user uid d) v = the_user d v"
  by (simp add: ensure_user_def the_user_def split: option.splits)

lemma the_user_update_user:
  "the_user (update_user uid f d) v = (if v = uid then f (the_user d uid) else the_user d v)"
  by (simp add: update_user_def the_user_def)

lemma balance_add_balance_other:
  "balance (the_user (add_balance uid amt d) v)
     = balance (the_user d v) + (if v = uid then amt else 0)"
  by (simp add: add_balance_def the_user_update_user)

lemma credit_loop_balance:
  "distinct (map fst ps) \<Longrightarrow>
   balance (the_user (credit_loop ps d) v)
     = balance (the_user d v)
       + (case map_of ps v of None \<Rightarrow> 0 | Some pay \<Rightarrow> if 0 < pay then pay else 0)"
proof (induction ps arbitrary: d)
  case Nil
  show ?case by simp
next
  case (Cons p ps)
  obtain u x where p: "p = (u, x)" by (cases p)
  from Cons.prems p have notin: "map_of ps u = None" and dk: "distinct (map fst ps)"
    by (auto simp: map_of_eq_None_iff)
  show ?case
  proof (cases "0 < x")
    case True
    let ?d3 = "update_user u (\<lambda>u. u\<lparr>best_streak := max (best_streak u) (streak u)\<rparr>)
                 (update_user u (\<lambda>u. u\<lparr>streak := streak u + 1\<rparr>)
                    (ensure_user u (add_balance u x d)))"
    have b: "balance (the_user ?d3 v) = balance (the_user d v) + (if v = u then x else 0)"
      by (simp add: the_user_update_user balance_add_balance_other)
    have "credit_loop (p # ps) d = credit_loop ps ?d3"
      using True p by (simp add: Let_def)
    then show ?thesis
      using Cons.IH[OF dk, of ?d3] b True p notin by simp
  next
    case False
    let ?d1 = "update_user u (\<lambda>u. u\<lparr>streak := 0\<rparr>) (ensure_user u d)"
    have b: "balance (the_user ?d1 v) = balance (the_user d v)"
      by (simp add: the_user_update_user)
    have "credit_loop (p # ps) d = credit_loop ps ?d1"
      using False p by (simp add: Let_def)
    then show ?thesis
      using Cons.IH[OF dk, of ?d1] b False p notin by simp
  qed
qed


section \<open>The settlement loops\<close>

text \<open>The keys of the bets of a round are distinct, as those of a Python \<open>dict\<close> are;
  the lemmas on the loops assume it of the association list.\<close>

lemma payouts_loop_keys:
  "payouts_loop sd bs acc = Inr pays \<Longrightarrow> distinct (map fst acc) \<Longrightarrow> distinct (map fst pays)"
proof (induction bs arbitrary: acc)
  case Nil
  then show ?case by simp
next
  case (Cons p bs)
  show ?case
  proof (cases "bet_side (snd p) = sd")
    case True
    with Cons.prems obtain pay where pay: "payout_of (amount (snd p)) = Inr pay"
      and rest: "payouts_loop sd bs (AList.update (fst p) pay acc) = Inr pays"
      by (auto split: sum.splits)
    from Cons.IH[OF rest] Cons.prems(2) show ?thesis
      by (simp add: distinct_update)
  next
    case False
    with Cons.prems have rest: "payouts_loop sd bs (AList.update (fst p) 0 acc) = Inr pays"
      by simp
    from Cons.IH[OF rest] Cons.prems(2) show ?thesis
      by (simp add: distinct_update)
  qed
qed

lemma payouts_loop_other:
  "payouts_loop sd bs acc = Inr pays \<Longrightarrow> uid \<notin> fst ` set bs \<Longrightarrow>
   map_of pays uid = map_of acc uid"
proof (induction bs arbitrary: acc)
  case Nil
  then show ?case by simp
next
  case (Cons p bs)
  from Cons.prems(2) have ne: "uid \<noteq> fst p" and notin: "uid \<notin> fst ` set bs" by auto
  show ?case
  proof (cases "bet_side (snd p) = sd")
    case True
    with Cons.prems obtain pay where
      rest: "payouts_loop sd bs (AList.update (fst p) pay acc) = Inr pays"
      by (auto split: sum.splits)
    from Cons.IH[OF rest notin] ne show ?thesis by (simp add: update_conv')
  next
    case False
    with Cons.prems have rest: "payouts_loop sd bs (AList.update (fst p) 0 acc) = Inr pays"
      by simp
    from Cons.IH[OF rest notin] ne show ?thesis by (simp add: update_conv')
  qed
qed

lemma payouts_loop_entry:
  "payouts_loop sd bs acc = Inr pays \<Longrightarrow> distinct (map fst bs) \<Longrightarrow> p \<in> set bs \<Longrightarrow>
   (bet_side (snd p) = sd \<longrightarrow>
      (\<exists>pay. payout_of (amount (snd p)) = Inr pay \<and> map_of pays (fst p) = Some pay)) \<and>
   (bet_side (snd p) \<noteq> sd \<longrightarrow> map_of pays (fst p) = Some 0)"
proof (induction bs arbitrary: acc)
  case Nil
  then show ?case by simp
next
  case (Cons q bs)
  from Cons.prems(2) have dk: "distinct (map fst bs)" and qnotin: "fst q \<notin> fst ` set bs"
    by auto
  show ?case
  proof (cases "bet_side (snd q) = sd")
    case True
    with Cons.prems obtain pay where pay: "payout_of (amount (snd q)) = Inr pay"
      and rest: "payouts_loop sd bs (AList.update (fst q) pay acc) = Inr pays"
      by (auto split: sum.splits)
    show ?thesis
    proof (cases "p = q")
      case True
      from payouts_loop_other[OF rest qnotin] have "map_of pays (fst q) = Some pay"
        by (simp add: update_conv')
      with True pay \<open>bet_side (snd q) = sd\<close> show ?thesis by simp
    next
      case False
      with Cons.prems(3) have "p \<in> set bs" by simp
      from Cons.IH[OF rest dk this] show ?thesis .
    qed
  next
    case False
    with Cons.prems have rest: "payouts_loop sd bs (AList.update (fst q) 0 acc) = Inr pays"
      by simp
    show ?thesis
    proof (cases "p = q")
      case True
      from payouts_loop_other[OF rest qnotin] have "map_of pays (fst q) = Some 0"
        by (simp add: update_conv')
      with True \<open>bet_side (snd q) \<noteq> sd\<close> show ?thesis by simp
    next
      case False
      with Cons.prems(3) have "p \<in> set bs" by simp
      from Cons.IH[OF rest dk this] show ?thesis .
    qed
  qed
qed

lemma profit_sum_values:
  "profit_sum sd bs = Inr wp \<Longrightarrow>
   \<exists>xs. map (\<lambda>p. profit_of (amount (snd p))) (filter (\<lambda>p. bet_side (snd p) = sd) bs) = map Inr xs
        \<and> wp = sum_list xs"
proof (induction bs arbitrary: wp)
  case Nil
  then show ?case by simp
next
  case (Cons p bs)
  show ?case
  proof (cases "bet_side (snd p) = sd")
    case True
    with Cons.prems obtain x t where x: "profit_of (amount (snd p)) = Inr x"
      and t: "profit_sum sd bs = Inr t" and wp: "wp = x + t"
      by (auto split: sum.splits)
    from Cons.IH[OF t] obtain xs where
      xs: "map (\<lambda>p. profit_of (amount (snd p))) (filter (\<lambda>p. bet_side (snd p) = sd) bs) = map Inr xs"
      "t = sum_list xs" by blast
    with True x wp show ?thesis by (intro exI[of _ "x # xs"]) simp
  next
    case False
    with Cons.prems Cons.IH show ?thesis by simp
  qed
qed

lemma jackpot_loop_other:
  "jackpot_loop pa tws n ws d = Inr d' \<Longrightarrow> v \<notin> fst ` set ws \<Longrightarrow>
   balance (the_user d' v) = balance (the_user d v)"
proof (induction ws arbitrary: d)
  case Nil
  then show ?case by simp
next
  case (Cons w ws)
  from Cons.prems(2) have ne: "v \<noteq> fst w" and notin: "v \<notin> fst ` set ws" by auto
  from Cons.prems(1) obtain share where
    rest: "jackpot_loop pa tws n ws (add_balance (fst w) share d) = Inr d'"
    by (auto split: sum.splits)
  from Cons.IH[OF rest notin] ne show ?case by (simp add: balance_add_balance_other)
qed

lemma jackpot_loop_share:
  "jackpot_loop pa tws n ws d = Inr d' \<Longrightarrow> distinct (map fst ws) \<Longrightarrow> w \<in> set ws \<Longrightarrow>
   \<exists>share. (if 0 < tws then share_of pa (amount (snd w)) tws else equal_share_of pa n) = Inr share
          \<and> balance (the_user d' (fst w)) = balance (the_user d (fst w)) + share"
proof (induction ws arbitrary: d)
  case Nil
  then show ?case by simp
next
  case (Cons q ws)
  from Cons.prems(2) have dk: "distinct (map fst ws)" and qnotin: "fst q \<notin> fst ` set ws"
    by auto
  from Cons.prems(1) obtain share where
    share: "(if 0 < tws then share_of pa (amount (snd q)) tws else equal_share_of pa n) = Inr share"
    and rest: "jackpot_loop pa tws n ws (add_balance (fst q) share d) = Inr d'"
    by (auto split: sum.splits)
  show ?case
  proof (cases "w = q")
    case True
    from jackpot_loop_other[OF rest qnotin]
    have "balance (the_user d' (fst q)) = balance (the_user d (fst q)) + share"
      by (simp add: balance_add_balance_other)
    with True share show ?thesis by blast
  next
    case False
    with Cons.prems(3) have win: "w \<in> set ws" by simp
    with qnotin have ne: "fst w \<noteq> fst q" by (metis imageI)
    from Cons.IH[OF rest dk win] ne show ?thesis
      by (simp add: balance_add_balance_other)
  qed
qed


section \<open>The phases of \<open>close_betting_and_roll\<close>\<close>

lemma settle_result:
  assumes "settle sd bs d = Inr (pays, d2)"
  shows "payouts_loop sd bs [] = Inr pays \<and>
         (\<exists>wp cut. profit_sum sd bs = Inr wp \<and> cut_of wp = Inr cut \<and>
            d2 = credit_loop pays (d\<lparr>pot := pot d + other_stake sd bs + cut\<rparr>))"
  using assms by (auto simp: settle_def Let_def split: sum.splits)

lemma settle_frame:
  assumes "settle sd bs d = Inr (pays, d2)"
  shows "bets d2 = bets d \<and> round_cfg d2 = round_cfg d \<and> history d2 = history d"
proof -
  from settle_result[OF assms] obtain cut where
    "d2 = credit_loop pays (d\<lparr>pot := pot d + other_stake sd bs + cut\<rparr>)" by blast
  with only_users_changedD[OF only_users_credit_loop[of "d\<lparr>pot := pot d + other_stake sd bs + cut\<rparr>" pays]]
  show ?thesis by simp
qed

lemma jackpot_result:
  assumes "jackpot dc winners d2 = Inr (paid, d3)"
  shows "((count_list dc 1 = 3 \<or> count_list dc 6 = 3) \<and> winners \<noteq> [] \<longrightarrow>
            paid = pot d2 \<and>
            (\<exists>d'. jackpot_loop (pot d2) (sum_list (map (\<lambda>p. amount (snd p)) winners))
                     (int (length winners)) winners d2 = Inr d' \<and> d3 = d'\<lparr>pot := 0\<rparr>)) \<and>
         (\<not> ((count_list dc 1 = 3 \<or> count_list dc 6 = 3) \<and> winners \<noteq> []) \<longrightarrow>
            paid = 0 \<and> d3 = d2)"
  using assms by (auto simp: jackpot_def Let_def split: sum.splits if_splits)

lemma jackpot_frame:
  assumes "jackpot dc winners d2 = Inr (paid, d3)"
  shows "bets d3 = bets d2 \<and> round_cfg d3 = round_cfg d2 \<and> history d3 = history d2"
proof (cases "(count_list dc 1 = 3 \<or> count_list dc 6 = 3) \<and> winners \<noteq> []")
  case True
  with jackpot_result[OF assms] obtain d' where
    l: "jackpot_loop (pot d2) (sum_list (map (\<lambda>p. amount (snd p)) winners))
          (int (length winners)) winners d2 = Inr d'" and d3: "d3 = d'\<lparr>pot := 0\<rparr>"
    by blast
  from only_users_changedD[OF only_users_jackpot_loop[OF l]] d3 show ?thesis by simp
next
  case False
  with jackpot_result[OF assms] show ?thesis by simp
qed

lemma close_decompose:
  assumes "close_betting_and_roll now rng i d = Inr (Some hr, d', i')"
  shows "\<exists>d2 d3.
     status (round_cfg d) = Open \<and>
     bets d (round_id (round_cfg d)) = Some (hist_bets hr) \<and>
     dice hr = fst (choose_dice (d\<lparr>round_cfg := (round_cfg d)\<lparr>status := Closed\<rparr>\<rparr>) rng i) \<and>
     hist_total hr = sum_list (dice hr) \<and>
     hist_side hr = side_of_total (sum_list (dice hr)) \<and>
     settle (hist_side hr) (hist_bets hr) (d\<lparr>round_cfg := (round_cfg d)\<lparr>status := Closed\<rparr>\<rparr>)
       = Inr (payouts hr, d2) \<and>
     jackpot (dice hr) (filter (\<lambda>p. bet_side (snd p) = hist_side hr) (hist_bets hr)) d2
       = Inr (distributed_from_pot hr, d3) \<and>
     pot_before hr = pot d \<and> pot_after hr = pot d3 \<and>
     pot d' = pot d3 \<and> users d' = users d3 \<and> history d' = history d @ [hr]"
proof -
  have op: "status (round_cfg d) = Open"
    using assms by (cases "status (round_cfg d) = Open") (simp_all add: close_betting_and_roll_def)
  define d1 where "d1 = d\<lparr>round_cfg := (round_cfg d)\<lparr>status := Closed\<rparr>\<rparr>"
  define dc where "dc = fst (choose_dice d1 rng i)"
  define sd where "sd = side_of_total (sum_list dc)"
  define rid where "rid = round_id (round_cfg d)"
  define bs where "bs = (case bets d1 rid of None \<Rightarrow> [] | Some bs \<Rightarrow> bs)"
  from assms op obtain pays d2 where st: "settle sd bs d1 = Inr (pays, d2)"
    by (cases "settle sd bs d1")
       (auto simp: close_betting_and_roll_def Let_def d1_def dc_def sd_def bs_def rid_def)
  from assms op st obtain paid d3 where
    jp: "jackpot dc (filter (\<lambda>p. bet_side (snd p) = sd) bs) d2 = Inr (paid, d3)"
    by (cases "jackpot dc (filter (\<lambda>p. bet_side (snd p) = sd) bs) d2")
       (auto simp: close_betting_and_roll_def Let_def d1_def dc_def sd_def bs_def rid_def)
  from assms op st jp obtain bs' where b3: "bets d3 rid = Some bs'"
    by (cases "bets d3 rid")
       (auto simp: close_betting_and_roll_def Let_def d1_def dc_def sd_def bs_def rid_def)
  from settle_frame[OF st] jackpot_frame[OF jp] have fr: "bets d3 = bets d1" "history d3 = history d1"
    by simp_all
  have b1: "bets d1 = bets d" "history d1 = history d" "pot d1 = pot d" by (simp_all add: d1_def)
  from b3 fr b1 have bs: "bs = bs'" "bets d rid = Some bs'" by (simp_all add: bs_def)
  from assms op st jp b3 have
    hr: "hr = \<lparr>hist_id = rid, timestamp = now, dice = dc, hist_total = sum_list dc, hist_side = sd,
              hist_bets = bs', payouts = pays, pot_before = pot d1, pot_after = pot d3,
              distributed_from_pot = paid\<rparr>"
    and d': "d' = d3\<lparr>history := history d3 @ [hr], bets := (bets d3)(rid := None),
                     round_cfg := (round_cfg d3)\<lparr>status := Idle, forced_next := None\<rparr>\<rparr>"
    by (auto simp: close_betting_and_roll_def Let_def d1_def dc_def sd_def bs_def rid_def)
  have h: "hist_bets hr = bs'" "dice hr = dc" "hist_side hr = sd" "payouts hr = pays"
    "distributed_from_pot hr = paid" "pot_before hr = pot d1" "pot_after hr = pot d3"
    "hist_total hr = sum_list dc"
    by (simp_all add: hr)
  have e: "pot d' = pot d3" "users d' = users d3" "history d' = history d @ [hr]"
    using fr b1 by (simp_all add: d')
  show ?thesis
    using op bs st jp h e b1
    by (intro exI[of _ d2] exI[of _ d3]) (simp add: d1_def dc_def sd_def rid_def)
qed


lemma the_user_cong: "users a = users b \<Longrightarrow> the_user a v = the_user b v"
  by (simp add: the_user_def)

text \<open>The effect of the settlement (before the jackpot check) on the pot and the balances.\<close>

lemma settle_effect:
  assumes st: "settle sd bs d = Inr (pays, d2)" and dk: "distinct (map fst bs)"
  shows "\<exists>xs cut.
           map (\<lambda>p. profit_of (amount (snd p))) (filter (\<lambda>p. bet_side (snd p) = sd) bs) = map Inr xs \<and>
           cut_of (sum_list xs) = Inr cut \<and>
           pot d2 = pot d + other_stake sd bs + cut"
    and "\<forall>p\<in>set bs.
           (bet_side (snd p) = sd \<longrightarrow>
              (\<exists>pay. payout_of (amount (snd p)) = Inr pay \<and> map_of pays (fst p) = Some pay \<and>
                 balance (the_user d2 (fst p)) = balance (the_user d (fst p)) + (if 0 < pay then pay else 0))) \<and>
           (bet_side (snd p) \<noteq> sd \<longrightarrow>
              map_of pays (fst p) = Some 0 \<and> balance (the_user d2 (fst p)) = balance (the_user d (fst p)))"
    and "\<forall>v. v \<notin> fst ` set bs \<longrightarrow> balance (the_user d2 v) = balance (the_user d v)"
proof -
  from settle_result[OF st] obtain wp cut where
    pl: "payouts_loop sd bs [] = Inr pays" and ps: "profit_sum sd bs = Inr wp"
    and cut: "cut_of wp = Inr cut"
    and d2: "d2 = credit_loop pays (d\<lparr>pot := pot d + other_stake sd bs + cut\<rparr>)"
    by blast
  let ?d = "d\<lparr>pot := pot d + other_stake sd bs + cut\<rparr>"
  from profit_sum_values[OF ps] obtain xs where
    xs: "map (\<lambda>p. profit_of (amount (snd p))) (filter (\<lambda>p. bet_side (snd p) = sd) bs) = map Inr xs"
    "wp = sum_list xs" by blast
  have "pot d2 = pot d + other_stake sd bs + cut"
    using only_users_changedD(1)[OF only_users_credit_loop[of ?d pays]] d2 by simp
  with xs cut show "\<exists>xs cut.
           map (\<lambda>p. profit_of (amount (snd p))) (filter (\<lambda>p. bet_side (snd p) = sd) bs) = map Inr xs \<and>
           cut_of (sum_list xs) = Inr cut \<and>
           pot d2 = pot d + other_stake sd bs + cut"
    by (intro exI[of _ xs] exI[of _ cut]) simp
  have dp: "distinct (map fst pays)"
    using payouts_loop_keys[OF pl] by simp
  have bal: "balance (the_user d2 v) = balance (the_user d v)
       + (case map_of pays v of None \<Rightarrow> 0 | Some pay \<Rightarrow> if 0 < pay then pay else 0)" for v
    using credit_loop_balance[OF dp, of ?d v] d2 by (simp add: the_user_def)
  show "\<forall>p\<in>set bs.
           (bet_side (snd p) = sd \<longrightarrow>
              (\<exists>pay. payout_of (amount (snd p)) = Inr pay \<and> map_of pays (fst p) = Some pay \<and>
                 balance (the_user d2 (fst p)) = balance (the_user d (fst p)) + (if 0 < pay then pay else 0))) \<and>
           (bet_side (snd p) \<noteq> sd \<longrightarrow>
              map_of pays (fst p) = Some 0 \<and> balance (the_user d2 (fst p)) = balance (the_user d (fst p)))"
  proof
    fix p assume p: "p \<in> set bs"
    show "(bet_side (snd p) = sd \<longrightarrow>
              (\<exists>pay. payout_of (amount (snd p)) = Inr pay \<and> map_of pays (fst p) = Some pay \<and>
                 balance (the_user d2 (fst p)) = balance (the_user d (fst p)) + (if 0 < pay then pay else 0))) \<and>
           (bet_side (snd p) \<noteq> sd \<longrightarrow>
              map_of pays (fst p) = Some 0 \<and> balance (the_user d2 (fst p)) = balance (the_user d (fst p)))"
    proof (cases "bet_side (snd p) = sd")
      case True
      with payouts_loop_entry[OF pl dk p] obtain pay where
        pay: "payout_of (amount (snd p)) = Inr pay" "map_of pays (fst p) = Some pay" by blast
      from bal[of "fst p"] pay(2)
      have "balance (the_user d2 (fst p)) = balance (the_user d (fst p)) + (if 0 < pay then pay else 0)"
        by simp
      with pay True show ?thesis by simp
    next
      case False
      with payouts_loop_entry[OF pl dk p] have z: "map_of pays (fst p) = Some 0" by blast
      from bal[of "fst p"] z
      have "balance (the_user d2 (fst p)) = balance (the_user d (fst p))" by simp
      with z False show ?thesis by simp
    qed
  qed
  show "\<forall>v. v \<notin> fst ` set bs \<longrightarrow> balance (the_user d2 v) = balance (the_user d v)"
  proof (intro allI impI)
    fix v assume "v \<notin> fst ` set bs"
    from payouts_loop_other[OF pl this] bal[of v]
    show "balance (the_user d2 v) = balance (the_user d v)" by simp
  qed
qed


text \<open>The constant \<open>PAY_MULTI - 1\<close> that the code multiplies the stakes of the winners by
  is the binary64 value of the literal \<open>0.97\<close>; a payout that lies exactly between two
  integers is rounded to the even one, as Python's \<open>round\<close> does.\<close>

lemma pay_multi_minus_1: "float_sub PAY_MULTI (1, 0) = Inr (4368491638549381, - 52)"
  by (simp add: float_defs)

lemma payout_of_50: "payout_of 50 = Inr 98"
  by (simp add: float_defs)

text \<open>
  Claim C2.  When \<open>close_betting_and_roll\<close> resolves a round and returns its record
  \<open>hr\<close>, the bets of the record are the bet set of the round and the side is the side of
  the total of the dice; the payout of every bet on that side is
  \<open>int(round(stake * 1.97))\<close> (\<open>payout_of\<close>) and the payout of every other bet is 0; and the
  pot before any jackpot drain (the amount distributed when the jackpot is hit, the pot
  of the record otherwise) is the pot before the round plus the sum of the losing stakes
  plus \<open>int(round(0.30 * wp))\<close> (\<open>cut_of\<close>), where \<open>wp\<close> is the sum over the winners of
  \<open>int(round(stake * 0.97))\<close> (\<open>profit_of\<close>).
\<close>

theorem settlement_payouts_and_pot:
  assumes res: "close_betting_and_roll now rng i d = Inr (Some hr, d', i')"
      and dk: "distinct (map fst (hist_bets hr))"
  shows "bets d (round_id (round_cfg d)) = Some (hist_bets hr) \<and>
         hist_side hr = side_of_total (sum_list (dice hr)) \<and>
         (\<forall>p\<in>set (hist_bets hr).
            (bet_side (snd p) = hist_side hr \<longrightarrow>
               (\<exists>pay. payout_of (amount (snd p)) = Inr pay \<and>
                      map_of (payouts hr) (fst p) = Some pay)) \<and>
            (bet_side (snd p) \<noteq> hist_side hr \<longrightarrow> map_of (payouts hr) (fst p) = Some 0)) \<and>
         (\<exists>xs cut.
            map (\<lambda>p. profit_of (amount (snd p)))
                (filter (\<lambda>p. bet_side (snd p) = hist_side hr) (hist_bets hr)) = map Inr xs \<and>
            cut_of (sum_list xs) = Inr cut \<and>
            pot_before hr = pot d \<and>
            (if (count_list (dice hr) 1 = 3 \<or> count_list (dice hr) 6 = 3) \<and>
                filter (\<lambda>p. bet_side (snd p) = hist_side hr) (hist_bets hr) \<noteq> []
             then distributed_from_pot hr else pot_after hr)
              = pot d + other_stake (hist_side hr) (hist_bets hr) + cut)"
proof -
  let ?d1 = "d\<lparr>round_cfg := (round_cfg d)\<lparr>status := Closed\<rparr>\<rparr>"
  let ?winners = "filter (\<lambda>p. bet_side (snd p) = hist_side hr) (hist_bets hr)"
  from close_decompose[OF res] obtain d2 d3 where
    b: "bets d (round_id (round_cfg d)) = Some (hist_bets hr)"
    and sd: "hist_side hr = side_of_total (sum_list (dice hr))"
    and st: "settle (hist_side hr) (hist_bets hr) ?d1 = Inr (payouts hr, d2)"
    and jp: "jackpot (dice hr) ?winners d2 = Inr (distributed_from_pot hr, d3)"
    and pb: "pot_before hr = pot d" and pa: "pot_after hr = pot d3"
    by blast
  from settle_effect(1)[OF st dk] obtain xs cut where
    xs: "map (\<lambda>p. profit_of (amount (snd p))) ?winners = map Inr xs"
    and cut: "cut_of (sum_list xs) = Inr cut"
    and p2: "pot d2 = pot d + other_stake (hist_side hr) (hist_bets hr) + cut"
    by auto
  have pays: "\<forall>p\<in>set (hist_bets hr).
            (bet_side (snd p) = hist_side hr \<longrightarrow>
               (\<exists>pay. payout_of (amount (snd p)) = Inr pay \<and>
                      map_of (payouts hr) (fst p) = Some pay)) \<and>
            (bet_side (snd p) \<noteq> hist_side hr \<longrightarrow> map_of (payouts hr) (fst p) = Some 0)"
    using settle_effect(2)[OF st dk] by blast
  have pot: "(if (count_list (dice hr) 1 = 3 \<or> count_list (dice hr) 6 = 3) \<and> ?winners \<noteq> []
             then distributed_from_pot hr else pot_after hr)
              = pot d + other_stake (hist_side hr) (hist_bets hr) + cut"
    using jackpot_result[OF jp] p2 pa by auto
  have "\<exists>xs cut.
            map (\<lambda>p. profit_of (amount (snd p))) ?winners = map Inr xs \<and>
            cut_of (sum_list xs) = Inr cut \<and>
            pot_before hr = pot d \<and>
            (if (count_list (dice hr) 1 = 3 \<or> count_list (dice hr) 6 = 3) \<and> ?winners \<noteq> []
             then distributed_from_pot hr else pot_after hr)
              = pot d + other_stake (hist_side hr) (hist_bets hr) + cut"
    using xs cut pb pot by (intro exI[of _ xs] exI[of _ cut]) simp
  with b sd pays show ?thesis by simp
qed

text \<open>The example bets resolved by three dice showing 4: the winner's payout is 1970, the
  loser's is 0, and the pot grows from 5000 by 500 + 291.\<close>

theorem settlement_payouts_and_pot_witness:
  "close_betting_and_roll 1060 (\<lambda>n. 3) 0 example_bets
     = Inr (Some example_hist_T, example_after_T, 3) \<and>
   distinct (map fst (hist_bets example_hist_T)) \<and>
   bets example_bets 1 = Some (hist_bets example_hist_T) \<and>
   hist_side example_hist_T = T \<and>
   payout_of 1000 = Inr 1970 \<and>
   map_of (payouts example_hist_T) 7 = Some 1970 \<and>
   map_of (payouts example_hist_T) 8 = Some 0 \<and>
   profit_of 1000 = Inr 970 \<and> cut_of 970 = Inr 291 \<and>
   pot_after example_hist_T = pot example_bets + 500 + 291"
proof -
  have d: "distinct (map fst (hist_bets example_hist_T))"
    by (simp add: example_hist_T_def)
  show ?thesis
    using settlement_payouts_and_pot[OF example_bets_T d] example_bets_T d
      payout_of_1000 profit_of_1000 cut_of_970
    by (simp add: example_defs2)
qed

section \<open>Bounds on the rounded products\<close>

lemma bitlen_lower: "0 < n \<Longrightarrow> 2 ^ (bitlen n - 1) \<le> n"
proof (induction n rule: bitlen.induct)
  case (1 n)
  show ?case
  proof (cases "n div 2 = 0")
    case True
    with 1(2) have "n = 1" by presburger
    then show ?thesis by simp
  next
    case False
    then have pos: "0 < n div 2" by simp
    with 1 have ih: "2 ^ (bitlen (n div 2) - 1) \<le> n div 2" by simp
    have bl: "bitlen n = Suc (bitlen (n div 2))" using 1(2) by (subst bitlen.simps) simp
    have "0 < bitlen (n div 2)" using pos by (subst bitlen.simps) simp
    then have "bitlen n - 1 = Suc (bitlen (n div 2) - 1)" using bl by simp
    then have "(2::nat) ^ (bitlen n - 1) = 2 * 2 ^ (bitlen (n div 2) - 1)" by simp
    also have "\<dots> \<le> 2 * (n div 2)" using ih by simp
    also have "\<dots> \<le> n" by simp
    finally show ?thesis .
  qed
qed

lemma rne_div_upper: "0 < d \<Longrightarrow> 2 * (rne_div n d * d) \<le> 2 * n + d"
proof -
  assume d: "0 < d"
  have n: "n = n div d * d + n mod d" by simp
  have m: "0 \<le> n mod d" "n mod d < d" using d by simp_all
  show ?thesis
  proof (cases "2 * (n mod d) < d")
    case True
    then have "rne_div n d = n div d" by (simp add: rne_div_def)
    then show ?thesis using n m by (smt (verit) mult.commute)
  next
    case False
    then have "rne_div n d \<le> n div d + 1" by (simp add: rne_div_def)
    then have "rne_div n d * d \<le> (n div d + 1) * d" using d by (simp add: mult_right_mono)
    also have "\<dots> = n div d * d + d" by (simp add: algebra_simps)
    finally have "2 * (rne_div n d * d) \<le> 2 * (n div d * d) + 2 * d" by simp
    moreover have "2 * (n div d * d) + 2 * d \<le> 2 * n + d"
    proof -
      have "d \<le> 2 * (n mod d)" using False by simp
      moreover have "2 * n = 2 * (n div d * d) + 2 * (n mod d)" by (subst n) (simp only: distrib_left)
      ultimately show ?thesis by linarith
    qed
    ultimately show ?thesis by linarith
  qed
qed

lemma rne_div_nonneg: "0 < d \<Longrightarrow> 0 \<le> n \<Longrightarrow> 0 \<le> rne_div n d"
  by (simp add: rne_div_def pos_imp_zdiv_nonneg_iff)


lemma float_val_nonneg: "0 \<le> fst x \<Longrightarrow> 0 \<le> float_val x"
  by (simp add: float_val_def)

lemma float_val_mult:
  "float_val (fst a * fst b, snd a + snd b) = float_val a * float_val b"
  by (simp add: float_val_def powr_add)

lemma float_val_int: "float_val (n, 0) = real_of_int n"
  by (simp add: float_val_def)

lemma two_powr_nat: "2 powr real_of_int (int k) = (2::real) ^ k"
  by (simp add: powr_realpow)

text \<open>Rounding a non-negative value that is not subnormal raises it by the factor
  \<open>1 + 2 ^ -53\<close> at most.\<close>

lemma fl_round_upper:
  assumes r: "fl_round (m, e) = Inr y" and m: "0 \<le> m" and e: "- 1074 \<le> e"
  shows "0 \<le> fst y \<and> e \<le> snd y \<and> float_val y \<le> float_val (m, e) * (1 + 1 / 2 ^ 53)"
proof -
  define k where "k = round_shift m e"
  from r have y: "y = drop_bits m e k"
    by (simp add: fl_round_def check_overflow_def k_def split: if_splits)
  show ?thesis
  proof (cases "k \<le> 0")
    case True
    then have "y = (m, e)" using y by (simp add: drop_bits_def)
    moreover have "float_val (m, e) \<le> float_val (m, e) * (1 + 1 / 2 ^ 53)"
      using float_val_nonneg[of "(m, e)"] m by (simp add: algebra_simps)
    ultimately show ?thesis using m by simp
  next
    case False
    then have kpos: "0 < k" by simp
    with e have k: "k = int (bitlen (nat \<bar>m\<bar>)) - 53"
      by (simp add: k_def round_shift_def max_def split: if_splits)
    define K where "K = nat k"
    define q where "q = rne_div m (2 ^ K)"
    have yq: "y = (q, e + k)" using y kpos by (simp add: drop_bits_def q_def K_def)
    have bl: "bitlen (nat m) = K + 53" using k kpos m by (simp add: K_def)
    then have mpos: "0 < nat m" by (cases "nat m = 0") auto
    have "bitlen (nat m) - 1 = K + 52" using bl by simp
    with bitlen_lower[OF mpos] have "2 ^ (K + 52) \<le> nat m" by simp
    then have "int (2 ^ (K + 52)) \<le> int (nat m)" by (rule of_nat_mono)
    then have low: "(2::int) ^ (K + 52) \<le> m"
      using m by simp
    have up: "2 * (q * 2 ^ K) \<le> 2 * m + 2 ^ K"
      unfolding q_def by (rule rne_div_upper) simp
    have qn: "0 \<le> q" unfolding q_def by (rule rne_div_nonneg) (use m in simp_all)
    have "real_of_int (2 * (q * 2 ^ K)) \<le> real_of_int (2 * m + 2 ^ K)"
      using up by (rule of_int_le_iff[THEN iffD2])
    then have up': "2 * (real_of_int q * 2 ^ K) \<le> 2 * real_of_int m + 2 ^ K" by simp
    have "real_of_int ((2::int) ^ (K + 52)) \<le> real_of_int m"
      using low by (rule of_int_le_iff[THEN iffD2])
    then have low': "(2::real) ^ K * 2 ^ 52 \<le> real_of_int m" by (simp add: power_add)
    have "real_of_int q * 2 ^ K \<le> real_of_int m + 2 ^ K / 2" using up' by simp
    also have "\<dots> \<le> real_of_int m + real_of_int m / 2 ^ 53"
    proof -
      have "(2::real) ^ K \<le> real_of_int m / 2 ^ 52"
        using low' by (simp add: pos_le_divide_eq)
      then show ?thesis by simp
    qed
    finally have main: "real_of_int q * 2 ^ K \<le> real_of_int m * (1 + 1 / 2 ^ 53)"
      by (simp add: algebra_simps)
    have "float_val y = real_of_int q * 2 ^ K * 2 powr real_of_int e"
      using yq kpos by (simp add: float_val_def powr_add K_def two_powr_nat[symmetric] algebra_simps)
    also have "\<dots> \<le> real_of_int m * (1 + 1 / 2 ^ 53) * 2 powr real_of_int e"
      using main by (simp add: mult_right_mono)
    finally have "float_val y \<le> float_val (m, e) * (1 + 1 / 2 ^ 53)"
      by (simp add: float_val_def algebra_simps)
    with yq qn kpos show ?thesis by simp
  qed
qed

lemma py_round_upper: "real_of_int (py_round x) \<le> float_val x + 1 / 2"
proof (cases "0 \<le> snd x")
  case True
  then have "real_of_int (py_round x) = float_val x"
    using two_powr_nat[of "nat (snd x)"] by (simp add: py_round_def float_val_def)
  then show ?thesis by simp
next
  case False
  define K where "K = nat (- snd x)"
  have e: "snd x = - int K" using False by (simp add: K_def)
  have r: "py_round x = rne_div (fst x) (2 ^ K)" using False by (simp add: py_round_def K_def)
  have "2 * (rne_div (fst x) (2 ^ K) * 2 ^ K) \<le> 2 * fst x + 2 ^ K"
    by (rule rne_div_upper) simp
  then have "real_of_int (2 * (rne_div (fst x) (2 ^ K) * 2 ^ K)) \<le> real_of_int (2 * fst x + 2 ^ K)"
    by (rule of_int_le_iff[THEN iffD2])
  then have "2 * (real_of_int (py_round x) * 2 ^ K) \<le> 2 * real_of_int (fst x) + 2 ^ K"
    using r by simp
  then have "real_of_int (py_round x) * 2 ^ K \<le> (real_of_int (fst x) / 2 ^ K + 1 / 2) * 2 ^ K"
    by (simp add: algebra_simps)
  then have "real_of_int (py_round x) \<le> real_of_int (fst x) / 2 ^ K + 1 / 2"
    by (rule mult_right_le_imp_le) simp
  moreover have "float_val x = real_of_int (fst x) / 2 ^ K"
    using two_powr_nat[of K] by (simp add: float_val_def e powr_minus divide_inverse)
  ultimately show ?thesis by simp
qed

lemma py_round_nonneg: "0 \<le> fst x \<Longrightarrow> 0 \<le> py_round x"
  by (simp add: py_round_def rne_div_nonneg)

lemma int_times_float_upper:
  assumes r: "int_times_float n c = Inr x" and n: "0 \<le> n" and c: "0 \<le> fst c" "- 1074 \<le> snd c"
  shows "0 \<le> fst x \<and> float_val x \<le> real_of_int n * float_val c * (1 + 1 / 2 ^ 53) ^ 2"
proof -
  from r obtain x1 where x1: "fl_round (n, 0) = Inr x1"
    and x: "fl_round (fst x1 * fst c, snd x1 + snd c) = Inr x"
    by (auto simp: int_times_float_def float_of_int_def float_mul_def split: sum.splits)
  from fl_round_upper[OF x1 n] have 1: "0 \<le> fst x1" "0 \<le> snd x1"
    "float_val x1 \<le> real_of_int n * (1 + 1 / 2 ^ 53)"
    by (simp_all add: float_val_int)
  have m2: "0 \<le> fst x1 * fst c" using 1(1) c(1) by simp
  have e2: "- 1074 \<le> snd x1 + snd c" using 1(2) c(2) by simp
  from fl_round_upper[OF x m2 e2] have 2: "0 \<le> fst x"
    "float_val x \<le> float_val x1 * float_val c * (1 + 1 / 2 ^ 53)"
    by (simp_all add: float_val_mult)
  have "float_val x1 * float_val c \<le> real_of_int n * (1 + 1 / 2 ^ 53) * float_val c"
    using 1(3) float_val_nonneg[OF c(1)] by (rule mult_right_mono)
  then have "float_val x1 * float_val c * (1 + 1 / 2 ^ 53)
      \<le> real_of_int n * (1 + 1 / 2 ^ 53) * float_val c * (1 + 1 / 2 ^ 53)"
    by (rule mult_right_mono) simp
  with 2 show ?thesis by (simp add: power2_eq_square algebra_simps)
qed


section \<open>Errors of the float operations\<close>

lemma bitlen_upper: "n < 2 ^ bitlen n"
proof (induction n rule: bitlen.induct)
  case (1 n)
  show ?case
  proof (cases "n = 0")
    case True
    then show ?thesis by (simp add: bitlen.simps)
  next
    case False
    with 1 have ih: "n div 2 < 2 ^ bitlen (n div 2)" by simp
    have bl: "bitlen n = Suc (bitlen (n div 2))" using False by (subst bitlen.simps) simp
    have "n < 2 * (n div 2 + 1)" by presburger
    also have "\<dots> \<le> 2 * 2 ^ bitlen (n div 2)" using ih by simp
    finally show ?thesis by (simp add: bl)
  qed
qed

lemma rne_div_lower: "0 < d \<Longrightarrow> 2 * n \<le> 2 * (rne_div n d * d) + d"
proof -
  assume d: "0 < d"
  have n: "n = n div d * d + n mod d" by simp
  have m: "0 \<le> n mod d" "n mod d < d" using d by simp_all
  have n2: "2 * n = 2 * (n div d * d) + 2 * (n mod d)" by (subst n) (simp only: distrib_left)
  show ?thesis
  proof (cases "rne_div n d = n div d")
    case True
    then have "2 * (n mod d) \<le> d" by (simp add: rne_div_def split: if_splits)
    with n2 True show ?thesis by simp
  next
    case False
    then have "rne_div n d = n div d + 1" by (simp add: rne_div_def split: if_splits)
    then have "rne_div n d * d = n div d * d + d" by (simp add: algebra_simps)
    with n2 m show ?thesis by simp
  qed
qed

lemma rne_div_abs: "0 < d \<Longrightarrow> \<bar>2 * (rne_div n d * d - n)\<bar> \<le> d"
  using rne_div_lower[of d n] rne_div_upper[of d n] by simp

lemma py_round_lower: "float_val x - 1 / 2 \<le> real_of_int (py_round x)"
proof (cases "0 \<le> snd x")
  case True
  then have "real_of_int (py_round x) = float_val x"
    using two_powr_nat[of "nat (snd x)"] by (simp add: py_round_def float_val_def)
  then show ?thesis by simp
next
  case False
  define K where "K = nat (- snd x)"
  have e: "snd x = - int K" using False by (simp add: K_def)
  have r: "py_round x = rne_div (fst x) (2 ^ K)" using False by (simp add: py_round_def K_def)
  have "2 * fst x \<le> 2 * (rne_div (fst x) (2 ^ K) * 2 ^ K) + 2 ^ K"
    by (rule rne_div_lower) simp
  then have "real_of_int (2 * fst x) \<le> real_of_int (2 * (rne_div (fst x) (2 ^ K) * 2 ^ K) + 2 ^ K)"
    by (rule of_int_le_iff[THEN iffD2])
  then have "2 * real_of_int (fst x) \<le> 2 * (real_of_int (py_round x) * 2 ^ K) + 2 ^ K"
    using r by simp
  then have "(real_of_int (fst x) / 2 ^ K - 1 / 2) * 2 ^ K \<le> real_of_int (py_round x) * 2 ^ K"
    by (simp add: algebra_simps)
  then have "real_of_int (fst x) / 2 ^ K - 1 / 2 \<le> real_of_int (py_round x)"
    by (rule mult_right_le_imp_le) simp
  moreover have "float_val x = real_of_int (fst x) / 2 ^ K"
    using two_powr_nat[of K] by (simp add: float_val_def e powr_minus divide_inverse)
  ultimately show ?thesis by simp
qed

lemma py_round_abs: "\<bar>real_of_int (py_round x) - float_val x\<bar> \<le> 1 / 2"
  using py_round_lower[of x] py_round_upper[of x] by linarith

text \<open>Rounding a non-negative value changes it by the factor \<open>2 ^ -53\<close> at most, or by
  \<open>2 ^ -1075\<close> at most where the result is subnormal.\<close>

lemma fl_round_error:
  assumes r: "fl_round (m, e) = Inr y" and m: "0 \<le> m"
  shows "0 \<le> fst y" and "e \<le> snd y" and "- 1074 \<le> snd y"
    and "\<bar>float_val y - float_val (m, e)\<bar>
           \<le> float_val (m, e) / 2 ^ 53 + (if - 1074 \<le> e then 0 else 2 powr (- 1075))"
proof -
  define k where "k = round_shift m e"
  from r have y: "y = drop_bits m e k"
    by (simp add: fl_round_def check_overflow_def k_def split: if_splits)
  have vn: "0 \<le> float_val (m, e)" using float_val_nonneg[of "(m, e)"] m by simp
  have "0 \<le> fst y \<and> e \<le> snd y \<and> - 1074 \<le> snd y \<and>
        \<bar>float_val y - float_val (m, e)\<bar>
           \<le> float_val (m, e) / 2 ^ 53 + (if - 1074 \<le> e then 0 else 2 powr (- 1075))"
  proof (cases "k \<le> 0")
    case True
    then have ye: "y = (m, e)" using y by (simp add: drop_bits_def)
    from True have "- 1074 \<le> e" by (simp add: k_def round_shift_def)
    with ye m vn show ?thesis by simp
  next
    case False
    then have kpos: "0 < k" by simp
    define K where "K = nat k"
    define q where "q = rne_div m (2 ^ K)"
    have kK: "k = int K" using kpos by (simp add: K_def)
    have yq: "y = (q, e + k)" using y kpos by (simp add: drop_bits_def q_def K_def)
    have qn: "0 \<le> q" unfolding q_def by (rule rne_div_nonneg) (use m in simp_all)
    have ke: "- 1074 - e \<le> k" by (simp add: k_def round_shift_def)
    have ab: "\<bar>2 * (q * 2 ^ K - m)\<bar> \<le> 2 ^ K"
      unfolding q_def by (rule rne_div_abs) simp
    have "real_of_int \<bar>2 * (q * 2 ^ K - m)\<bar> \<le> real_of_int (2 ^ K)"
      using ab by (rule of_int_le_iff[THEN iffD2])
    then have "\<bar>2 * (real_of_int q * 2 ^ K - real_of_int m)\<bar> \<le> 2 ^ K" by simp
    then have "2 * \<bar>real_of_int q * 2 ^ K - real_of_int m\<bar> \<le> 2 ^ K"
      by (simp only: abs_mult abs_numeral)
    then have ab': "\<bar>real_of_int q * 2 ^ K - real_of_int m\<bar> \<le> 2 ^ K / 2" by simp
    have pe: "0 < (2::real) powr real_of_int e" by simp
    have vy: "float_val y = real_of_int q * 2 ^ K * 2 powr real_of_int e"
      using yq by (simp add: float_val_def powr_add kK powr_realpow algebra_simps)
    have "float_val y - float_val (m, e)
            = (real_of_int q * 2 ^ K - real_of_int m) * 2 powr real_of_int e"
      unfolding vy by (simp add: float_val_def algebra_simps)
    then have "\<bar>float_val y - float_val (m, e)\<bar>
            = \<bar>real_of_int q * 2 ^ K - real_of_int m\<bar> * 2 powr real_of_int e"
      by (simp add: abs_mult)
    also have "\<dots> \<le> 2 ^ K / 2 * 2 powr real_of_int e"
      using ab' by (rule mult_right_mono) simp
    finally have err: "\<bar>float_val y - float_val (m, e)\<bar> \<le> 2 ^ K / 2 * 2 powr real_of_int e" .
    have bound: "2 ^ K / 2 * 2 powr real_of_int e
                   \<le> float_val (m, e) / 2 ^ 53 + (if - 1074 \<le> e then 0 else 2 powr (- 1075))"
    proof (cases "k = int (bitlen (nat \<bar>m\<bar>)) - 53")
      case True
      have bl: "bitlen (nat m) = K + 53" using True kpos m by (simp add: K_def)
      then have mpos: "0 < nat m" by (cases "nat m = 0") auto
      have "bitlen (nat m) - 1 = K + 52" using bl by simp
      with bitlen_lower[OF mpos] have "2 ^ (K + 52) \<le> nat m" by simp
      then have "int (2 ^ (K + 52)) \<le> int (nat m)" by (rule of_nat_mono)
      then have low: "(2::int) ^ (K + 52) \<le> m" using m by simp
      have "real_of_int ((2::int) ^ (K + 52)) \<le> real_of_int m"
        using low by (rule of_int_le_iff[THEN iffD2])
      then have "(2::real) ^ K * 2 ^ 52 \<le> real_of_int m" by (simp add: power_add)
      then have "(2::real) ^ K / 2 \<le> real_of_int m / 2 ^ 53"
        by (simp add: pos_le_divide_eq)
      then have "2 ^ K / 2 * 2 powr real_of_int e \<le> real_of_int m / 2 ^ 53 * 2 powr real_of_int e"
        by (rule mult_right_mono) simp
      also have "\<dots> = float_val (m, e) / 2 ^ 53" by (simp add: float_val_def)
      finally have "2 ^ K / 2 * 2 powr real_of_int e \<le> float_val (m, e) / 2 ^ 53" .
      moreover have "(0::real) \<le> (if - 1074 \<le> e then 0 else 2 powr (- 1075))" by simp
      ultimately show ?thesis by linarith
    next
      case False
      with ke have k2: "k = - 1074 - e"
        by (simp add: k_def round_shift_def max_def split: if_splits)
      with kpos have e: "\<not> - 1074 \<le> e" by simp
      have "(2::real) ^ K * 2 powr real_of_int e = 2 powr real_of_int k * 2 powr real_of_int e"
        by (simp add: kK powr_realpow)
      also have "\<dots> = 2 powr (real_of_int k + real_of_int e)" by (simp add: powr_add)
      also have "real_of_int k + real_of_int e = - 1074" using k2 by simp
      finally have "(2::real) ^ K * 2 powr real_of_int e = 2 powr (- 1074)" .
      moreover have "(2::real) powr (- 1075) = 2 powr (- 1074) / 2"
      proof -
        have "(2::real) powr (- 1075) = 2 powr (- 1074 - 1)" by simp
        also have "\<dots> = 2 powr (- 1074) / 2 powr 1" by (rule powr_diff)
        finally show ?thesis by simp
      qed
      ultimately have "2 ^ K / 2 * 2 powr real_of_int e = 2 powr (- 1075)" by simp
      with e vn show ?thesis by simp
    qed
    from err bound have "\<bar>float_val y - float_val (m, e)\<bar>
           \<le> float_val (m, e) / 2 ^ 53 + (if - 1074 \<le> e then 0 else 2 powr (- 1075))" by simp
    with yq qn kpos ke show ?thesis by simp
  qed
  then show "0 \<le> fst y" and "e \<le> snd y" and "- 1074 \<le> snd y"
    and "\<bar>float_val y - float_val (m, e)\<bar>
           \<le> float_val (m, e) / 2 ^ 53 + (if - 1074 \<le> e then 0 else 2 powr (- 1075))"
    by simp_all
qed

text \<open>A float is below \<open>2 ^ 1024\<close>.\<close>

lemma fl_round_below:
  assumes r: "fl_round (m, e) = Inr y" and m: "0 \<le> m"
  shows "float_val y < 2 powr 1024"
proof -
  from r have ov: "int (bitlen (nat \<bar>fst y\<bar>)) + snd y \<le> 1024"
    by (simp add: fl_round_def check_overflow_def split: if_splits)
  from fl_round_error(1)[OF r m] have fy: "0 \<le> fst y" .
  define B where "B = bitlen (nat (fst y))"
  have "nat (fst y) < 2 ^ B" unfolding B_def by (rule bitlen_upper)
  then have "int (nat (fst y)) < int (2 ^ B)" by (rule of_nat_less_iff[THEN iffD2])
  then have "fst y < 2 ^ B" using fy by simp
  then have "real_of_int (fst y) < real_of_int (2 ^ B)" by (rule of_int_less_iff[THEN iffD2])
  then have "real_of_int (fst y) < 2 powr real B" by (simp add: powr_realpow)
  then have "float_val y < 2 powr real B * 2 powr real_of_int (snd y)"
    unfolding float_val_def by (rule mult_strict_right_mono) simp
  also have "\<dots> = 2 powr (real B + real_of_int (snd y))" by (simp add: powr_add)
  also have "\<dots> \<le> 2 powr 1024"
  proof (rule powr_mono)
    have "real_of_int (int B + snd y) \<le> real_of_int 1024"
      using ov fy unfolding B_def by (intro of_int_le_iff[THEN iffD2]) simp
    then show "real B + real_of_int (snd y) \<le> 1024" by simp
  qed simp
  finally show ?thesis .
qed

lemma sticky_quotient_abs:
  assumes b: "0 < b"
  shows "\<bar>sticky_quotient a b s * b - 2 * (a * 2 ^ s)\<bar> \<le> b"
proof -
  define N where "N = a * 2 ^ s"
  define r where "r = N mod b"
  have n: "N = N div b * b + r" by (simp add: r_def)
  have m: "0 \<le> r" "r < b" using b by (simp_all add: r_def)
  have 1: "sticky_quotient a b s * b = 2 * (N div b * b) + (if r = 0 then 0 else b)"
    by (simp add: sticky_quotient_def N_def r_def algebra_simps)
  have 2: "2 * N = 2 * (N div b * b) + 2 * r" by (subst n) (simp only: distrib_left)
  have "\<bar>(if r = 0 then 0 else b) - 2 * r\<bar> \<le> b"
    using m b by (cases "r = 0") (simp_all add: abs_le_iff)
  then have "\<bar>sticky_quotient a b s * b - 2 * N\<bar> \<le> b"
    unfolding 1 2 by simp
  then show ?thesis by (simp add: N_def)
qed

lemma sticky_quotient_nonneg: "0 \<le> a \<Longrightarrow> 0 < b \<Longrightarrow> 0 \<le> sticky_quotient a b s"
  by (simp add: sticky_quotient_def pos_imp_zdiv_nonneg_iff)

lemma quotient_large:
  assumes a: "0 < a" and b: "0 < b"
  shows "2 ^ 54 * b \<le> a * 2 ^ quotient_shift a b"
proof -
  define A where "A = bitlen (nat a)"
  define B where "B = bitlen (nat b)"
  define s where "s = quotient_shift a b"
  have s: "55 + B \<le> A + s"
    using a by (simp add: s_def quotient_shift_def A_def B_def)
  have apos: "0 < nat a" using a by simp
  then have A1: "0 < A" unfolding A_def by (subst bitlen.simps) simp
  have la: "2 ^ (A - 1) \<le> nat a" unfolding A_def by (rule bitlen_lower[OF apos])
  have ub: "nat b < 2 ^ B" unfolding B_def by (rule bitlen_upper)
  have "2 ^ 54 * nat b \<le> 2 ^ 54 * 2 ^ B" using ub by simp
  also have "\<dots> = 2 ^ (54 + B)" by (simp add: power_add)
  also have "\<dots> \<le> 2 ^ (A - 1 + s)"
    by (rule power_increasing) (use s A1 in simp_all)
  also have "\<dots> = 2 ^ (A - 1) * 2 ^ s" by (simp add: power_add)
  also have "\<dots> \<le> nat a * 2 ^ s" using la by simp
  finally have "int (2 ^ 54 * nat b) \<le> int (nat a * 2 ^ s)" by (rule of_nat_mono)
  then show ?thesis using a b by (simp add: s_def)
qed

lemma two_powr_neg_succ: "2 powr (- real s - 1) = 1 / (2 * 2 ^ s)"
proof -
  have "- real s - 1 = - (real s + 1)" by simp
  then have "2 powr (- real s - 1) = inverse (2 powr (real s + 1))"
    by (simp only: powr_minus)
  also have "(2::real) powr (real s + 1) = 2 powr real s * 2 powr 1" by (rule powr_add)
  also have "\<dots> = 2 * 2 ^ s" by (simp add: powr_realpow)
  finally show ?thesis by (simp add: inverse_eq_divide)
qed

text \<open>The quotient of two positive integers: the relative error is \<open>2 ^ -52\<close> at most,
  apart from \<open>2 ^ -1075\<close> where the quotient is subnormal.\<close>

lemma int_truediv_error:
  assumes r: "int_truediv a b = Inr q" and a: "0 < a" and b: "0 < b"
  shows "0 \<le> fst q" and "- 1074 \<le> snd q"
    and "\<bar>float_val q - real_of_int a / real_of_int b\<bar>
           \<le> real_of_int a / real_of_int b / 2 ^ 52 + 2 powr (- 1075)"
proof -
  define s where "s = quotient_shift a b"
  define st where "st = sticky_quotient a b s"
  define V where "V = float_val (st, - int s - 1)"
  define R where "R = real_of_int a / real_of_int b"
  define t where "t = (2::real) powr (- 1075)"
  from r b have q: "fl_round (st, - int s - 1) = Inr q"
    by (simp add: int_truediv_def pos_truediv_def st_def s_def)
  have stn: "0 \<le> st" unfolding st_def using a b by (intro sticky_quotient_nonneg) simp_all
  from fl_round_error(1)[OF q stn] show "0 \<le> fst q" .
  from fl_round_error(3)[OF q stn] show "- 1074 \<le> snd q" .
  have ra: "0 < real_of_int a" and rb: "0 < real_of_int b" using a b by simp_all
  have Rn: "0 \<le> R" unfolding R_def using ra rb by simp
  have tn: "0 \<le> t" by (simp add: t_def)
  have Vd: "V = real_of_int st / (2 * 2 ^ s)"
    by (simp add: V_def float_val_def two_powr_neg_succ)
  have "real_of_int \<bar>st * b - 2 * (a * 2 ^ s)\<bar> \<le> real_of_int b"
    unfolding st_def using sticky_quotient_abs[OF b] by (rule of_int_le_iff[THEN iffD2])
  then have ab: "\<bar>real_of_int st * real_of_int b - 2 * (real_of_int a * 2 ^ s)\<bar> \<le> real_of_int b"
    by simp
  have "V - R = (real_of_int st * real_of_int b - 2 * (real_of_int a * 2 ^ s))
                  / (2 * 2 ^ s * real_of_int b)"
    unfolding Vd R_def using rb by (simp add: field_simps)
  then have "\<bar>V - R\<bar> = \<bar>real_of_int st * real_of_int b - 2 * (real_of_int a * 2 ^ s)\<bar>
                  / (2 * 2 ^ s * real_of_int b)"
    using rb by (simp add: abs_divide abs_mult)
  also have "\<dots> \<le> real_of_int b / (2 * 2 ^ s * real_of_int b)"
    using ab rb by (intro divide_right_mono) simp_all
  also have "\<dots> = 1 / (2 * 2 ^ s)" using rb by simp
  finally have VR: "\<bar>V - R\<bar> \<le> 1 / (2 * 2 ^ s)" .
  have "real_of_int (2 ^ 54 * b) \<le> real_of_int (a * 2 ^ s)"
    unfolding s_def using quotient_large[OF a b] by (rule of_int_le_iff[THEN iffD2])
  then have "2 ^ 54 * real_of_int b \<le> real_of_int a * 2 ^ s" by simp
  then have "2 ^ 54 \<le> R * 2 ^ s"
    unfolding R_def using rb by (simp add: field_simps)
  then have "2 ^ 54 / 2 ^ s \<le> R" by (simp add: field_simps)
  then have "1 / (2 * 2 ^ s) \<le> R / 2 ^ 55" by (simp add: field_simps)
  with VR have VR2: "\<bar>V - R\<bar> \<le> R / 2 ^ 55" by simp
  have "\<bar>float_val q - V\<bar> \<le> V / 2 ^ 53 + (if - 1074 \<le> - int s - 1 then 0 else 2 powr (- 1075))"
    unfolding V_def by (rule fl_round_error(4)[OF q stn])
  moreover have "(if - 1074 \<le> - int s - 1 then 0 else 2 powr (- 1075)) \<le> t"
    by (simp add: t_def)
  ultimately have QV: "\<bar>float_val q - V\<bar> \<le> V / 2 ^ 53 + t" by linarith
  have "V \<le> R + R / 2 ^ 55" using VR2 by linarith
  then have "V / 2 ^ 53 \<le> (R + R / 2 ^ 55) / 2 ^ 53" by (rule divide_right_mono) simp
  with QV VR2 have "\<bar>float_val q - R\<bar> \<le> (R + R / 2 ^ 55) / 2 ^ 53 + t + R / 2 ^ 55" by linarith
  also have "\<dots> \<le> R / 2 ^ 52 + t" using Rn by (simp add: field_simps)
  finally show "\<bar>float_val q - real_of_int a / real_of_int b\<bar>
           \<le> real_of_int a / real_of_int b / 2 ^ 52 + 2 powr (- 1075)"
    by (simp add: R_def t_def)
qed

text \<open>The float product of an integer and a quotient, by the errors of its three
  roundings: \<open>u\<close> is \<open>2 ^ -53\<close> and \<open>t\<close> the subnormal error of the quotient.\<close>

lemma product_error:
  fixes P Q X p r t u :: real
  assumes p: "0 \<le> p" and r: "0 \<le> r" and t: "0 \<le> t" and u: "0 \<le> u" "u \<le> 1 / 2"
      and Qn: "0 \<le> Q"
      and P: "\<bar>P - p\<bar> \<le> p * u"
      and Q: "\<bar>Q - r\<bar> \<le> 2 * (r * u) + t"
      and X: "\<bar>X - P * Q\<bar> \<le> P * Q * u"
  shows "X \<le> p * r * ((1 + u) ^ 2 * (1 + 2 * u)) + p * t * (1 + u) ^ 2"
    and "p * r * ((1 - u) ^ 2 * (1 - 2 * u)) - p * t \<le> X"
proof -
  have Pu: "P \<le> p * (1 + u)" and Pl: "p * (1 - u) \<le> P"
    using P by (simp_all add: algebra_simps abs_le_iff)
  have Qu: "Q \<le> r * (1 + 2 * u) + t" and Ql: "r * (1 - 2 * u) - t \<le> Q"
    using Q by (simp_all add: algebra_simps abs_le_iff)
  have Xu: "X \<le> P * Q * (1 + u)" and Xl: "P * Q * (1 - u) \<le> X"
    using X by (simp_all add: algebra_simps abs_le_iff)
  have u1: "0 \<le> 1 - u" "0 \<le> 1 + u" using u by simp_all
  have pl: "0 \<le> p * (1 - u)" using p u1 by simp
  have Pn: "0 \<le> P" using pl Pl by simp
  have PQn: "0 \<le> P * Q" using Pn Qn by simp
  have "P * Q \<le> p * (1 + u) * (r * (1 + 2 * u) + t)"
    using Pu Qu Pn Qn p u1 by (intro mult_mono) simp_all
  then have "P * Q * (1 + u) \<le> p * (1 + u) * (r * (1 + 2 * u) + t) * (1 + u)"
    using u1 by (intro mult_right_mono) simp_all
  with Xu have "X \<le> p * (1 + u) * (r * (1 + 2 * u) + t) * (1 + u)" by simp
  then show "X \<le> p * r * ((1 + u) ^ 2 * (1 + 2 * u)) + p * t * (1 + u) ^ 2"
    by (simp add: power2_eq_square algebra_simps)
  have "p * (1 - u) * (r * (1 - 2 * u) - t) \<le> p * (1 - u) * Q"
    using Ql pl by (intro mult_left_mono) simp_all
  also have "\<dots> \<le> P * Q" using Pl Qn by (intro mult_right_mono) simp_all
  finally have "p * (1 - u) * (r * (1 - 2 * u) - t) * (1 - u) \<le> P * Q * (1 - u)"
    using u1 by (intro mult_right_mono) simp_all
  with Xl have l: "p * (1 - u) * (r * (1 - 2 * u) - t) * (1 - u) \<le> X" by simp
  have "p * t * (1 - u) ^ 2 \<le> p * t * 1"
  proof (rule mult_left_mono)
    have "(1 - u) ^ 2 \<le> 1 ^ 2" using u by (intro power_mono) simp_all
    then show "(1 - u) ^ 2 \<le> 1" by simp
    show "0 \<le> p * t" using p t by simp
  qed
  moreover have "p * (1 - u) * (r * (1 - 2 * u) - t) * (1 - u)
      = p * r * ((1 - u) ^ 2 * (1 - 2 * u)) - p * t * (1 - u) ^ 2"
    by (simp add: power2_eq_square algebra_simps)
  ultimately show "p * r * ((1 - u) ^ 2 * (1 - 2 * u)) - p * t \<le> X"
    using l by simp
qed

lemma share_rounding_factors:
  "(1 + 1 / 2 ^ 53) ^ 2 * (1 + 2 * (1 / 2 ^ 53)) \<le> (1 + 1 / 2 ^ 50 :: real)"
  "(1 - 1 / 2 ^ 50 :: real) \<le> (1 - 1 / 2 ^ 53) ^ 2 * (1 - 2 * (1 / 2 ^ 53))"
  "(1 + 1 / 2 ^ 53) ^ 2 \<le> (2 :: real)"
  by (simp_all add: power2_eq_square)

text \<open>An integer that has a float is below \<open>2 ^ 1025\<close>, so that the subnormal error of
  a quotient contributes less than \<open>2 ^ -50\<close> to its product.\<close>

lemma float_of_int_error:
  assumes r: "float_of_int n = Inr x" and n: "0 \<le> n"
  shows "0 \<le> fst x" and "0 \<le> snd x"
    and "\<bar>float_val x - real_of_int n\<bar> \<le> real_of_int n * (1 / 2 ^ 53)"
    and "real_of_int n * 2 powr (- 1075) \<le> 1 / 2 ^ 50"
proof -
  from r have x: "fl_round (n, 0) = Inr x" by (simp add: float_of_int_def)
  from fl_round_error(1)[OF x n] show "0 \<le> fst x" .
  from fl_round_error(2)[OF x n] show "0 \<le> snd x" .
  from fl_round_error(4)[OF x n]
  show e: "\<bar>float_val x - real_of_int n\<bar> \<le> real_of_int n * (1 / 2 ^ 53)"
    by (simp add: float_val_int)
  have nn: "0 \<le> real_of_int n" using n by simp
  have "real_of_int n * (1 / 2 ^ 53) \<le> real_of_int n * (1 / 2)"
    using nn by (intro mult_left_mono) simp_all
  moreover have "real_of_int n - float_val x \<le> \<bar>float_val x - real_of_int n\<bar>" by simp
  ultimately have "real_of_int n \<le> 2 * float_val x" using e by linarith
  also have "\<dots> \<le> 2 * 2 powr 1024" using fl_round_below[OF x n] by simp
  also have "\<dots> = 2 powr 1 * 2 powr 1024" by simp
  also have "\<dots> = 2 powr (1 + 1024)" by (rule powr_add[symmetric])
  finally have "real_of_int n * 2 powr (- 1075) \<le> 2 powr (1 + 1024) * 2 powr (- 1075)"
    by (intro mult_right_mono) simp_all
  also have "\<dots> = 2 powr (1 + 1024 + (- 1075))" by (rule powr_add[symmetric])
  also have "\<dots> = 2 powr (- 50)" by simp
  also have "\<dots> = 1 / 2 ^ 50" by (simp add: powr_minus inverse_eq_divide)
  finally show "real_of_int n * 2 powr (- 1075) \<le> 1 / 2 ^ 50" .
qed

text \<open>
  The share \<open>int(round(pot * (stake / total)))\<close> is the exact proportional part
  \<open>pot * stake / total\<close> up to the rounding to an integer, \<open>1 / 2\<close>, and the error of the
  float operations, a \<open>2 ^ -49\<close>-th of the part and of 1.
\<close>

lemma share_of_error:
  assumes s: "share_of pot_amount stake tws = Inr share"
      and p: "0 \<le> pot_amount" and a: "0 < stake" and b: "0 < tws"
  shows "\<bar>real_of_int share - real_of_int pot_amount * real_of_int stake / real_of_int tws\<bar>
           \<le> 1 / 2 + (real_of_int pot_amount * real_of_int stake / real_of_int tws + 1) / 2 ^ 49"
proof -
  from s obtain q fp x where q: "int_truediv stake tws = Inr q"
    and fp: "float_of_int pot_amount = Inr fp"
    and x: "fl_round (fst fp * fst q, snd fp + snd q) = Inr x"
    and sh: "share = py_round x"
    by (auto simp: share_of_def int_times_float_def float_mul_def split: sum.splits)
  define R where "R = real_of_int stake / real_of_int tws"
  define E where "E = real_of_int pot_amount * R"
  define t where "t = (2::real) powr (- 1075)"
  define u where "u = (1::real) / 2 ^ 53"
  have Rn: "0 \<le> R" unfolding R_def using a b by simp
  have pn: "0 \<le> real_of_int pot_amount" using p by simp
  have En: "0 \<le> E" unfolding E_def using pn Rn by simp
  have tn: "0 \<le> t" by (simp add: t_def)
  have un: "0 \<le> u" "u \<le> 1 / 2" by (simp_all add: u_def)
  note qe = int_truediv_error[OF q a b]
  note pe = float_of_int_error[OF fp p]
  have Qn: "0 \<le> float_val q" using qe(1) by (rule float_val_nonneg)
  have Q: "\<bar>float_val q - R\<bar> \<le> 2 * (R * u) + t"
    using qe(3) by (simp add: R_def t_def u_def)
  have P: "\<bar>float_val fp - real_of_int pot_amount\<bar> \<le> real_of_int pot_amount * u"
    using pe(3) by (simp add: u_def)
  have mn: "0 \<le> fst fp * fst q" using pe(1) qe(1) by simp
  have en: "- 1074 \<le> snd fp + snd q" using pe(2) qe(2) by simp
  have X: "\<bar>float_val x - float_val fp * float_val q\<bar> \<le> float_val fp * float_val q * u"
    using fl_round_error(4)[OF x mn] en by (simp add: float_val_mult u_def)
  note pr = product_error[OF pn Rn tn un Qn P Q X]
  have pt: "real_of_int pot_amount * t \<le> 1 / 2 ^ 50" using pe(4) by (simp add: t_def)
  have f1: "(1 + u) ^ 2 * (1 + 2 * u) \<le> 1 + 1 / 2 ^ 50"
    and f2: "1 - 1 / 2 ^ 50 \<le> (1 - u) ^ 2 * (1 - 2 * u)"
    and f3: "(1 + u) ^ 2 \<le> 2"
    unfolding u_def by (rule share_rounding_factors)+
  have "E * ((1 + u) ^ 2 * (1 + 2 * u)) \<le> E * (1 + 1 / 2 ^ 50)"
    using f1 En by (rule mult_left_mono)
  moreover have "real_of_int pot_amount * t * (1 + u) ^ 2 \<le> 1 / 2 ^ 50 * 2"
    using pt f3 pn tn by (intro mult_mono) simp_all
  ultimately have up: "float_val x \<le> E + E / 2 ^ 50 + 1 / 2 ^ 49"
    using pr(1) by (simp add: E_def algebra_simps)
  have "E * (1 - 1 / 2 ^ 50) \<le> E * ((1 - u) ^ 2 * (1 - 2 * u))"
    using f2 En by (rule mult_left_mono)
  then have lo: "E - E / 2 ^ 50 - 1 / 2 ^ 50 \<le> float_val x"
    using pr(2) pt by (simp add: E_def algebra_simps)
  have h1: "E / 2 ^ 50 \<le> E / 2 ^ 49" using En by (simp add: field_simps)
  have h2: "(1::real) / 2 ^ 50 \<le> 1 / 2 ^ 49" by simp
  have h3: "(E + 1) / 2 ^ 49 = E / 2 ^ 49 + 1 / 2 ^ 49" by (rule add_divide_distrib)
  have "float_val x - E \<le> (E + 1) / 2 ^ 49" unfolding h3 using up h1 by linarith
  moreover have "E - float_val x \<le> (E + 1) / 2 ^ 49" unfolding h3 using lo h1 h2 by linarith
  ultimately have "\<bar>float_val x - E\<bar> \<le> (E + 1) / 2 ^ 49"
    by (simp only: abs_le_iff minus_diff_eq)
  with py_round_abs[of x] have "\<bar>real_of_int share - E\<bar> \<le> 1 / 2 + (E + 1) / 2 ^ 49"
    unfolding sh by linarith
  then show ?thesis by (simp add: E_def R_def)
qed


section \<open>Bounds on the payout, the profit and the cut\<close>

lemma rounding_factor: "(1 + 1 / 2 ^ 53) ^ 2 \<le> (1001 / 1000 :: real)"
  by (simp add: power2_eq_square)

lemma round_times_upper:
  assumes r: "int_times_float n c = Inr x" and n: "0 \<le> n"
      and c: "0 \<le> fst c" "- 1074 \<le> snd c" and a: "float_val c \<le> a"
  shows "0 \<le> py_round x \<and> real_of_int (py_round x) \<le> real_of_int n * a * (1001 / 1000) + 1 / 2"
proof -
  from int_times_float_upper[OF r n c] have x: "0 \<le> fst x"
    "float_val x \<le> real_of_int n * float_val c * (1 + 1 / 2 ^ 53) ^ 2" by simp_all
  have nn: "0 \<le> real_of_int n" using n by simp
  have "real_of_int n * float_val c \<le> real_of_int n * a"
    using a nn by (rule mult_left_mono)
  moreover have "0 \<le> real_of_int n * float_val c"
    using nn float_val_nonneg[OF c(1)] by simp
  ultimately have "real_of_int n * float_val c * (1 + 1 / 2 ^ 53) ^ 2
      \<le> real_of_int n * a * (1001 / 1000)"
    by (intro mult_mono[OF _ rounding_factor]) simp_all
  with x(2) py_round_upper[of x] py_round_nonneg[OF x(1)] show ?thesis by simp
qed

lemma float_val_POT_CUT: "float_val POT_CUT \<le> 3 / 10"
  by (simp add: float_val_def POT_CUT_def powr_minus)

lemma float_val_profit: "float_val (4368491638549381, - 52) \<le> 97 / 100"
  by (simp add: float_val_def powr_minus)

text \<open>The small arguments, by evaluation.\<close>

lemma profit_ok_upto_17: "list_all profit_ok (0 # 1 # [2..17])"
  by (simp add: profit_ok_def float_defs)

lemma cut_ok_upto_2: "list_all cut_ok [0, 1, 2]"
  by (simp add: cut_ok_def float_defs)

lemma profit_of_small:
  assumes "0 \<le> n" "n < 18" "profit_of n = Inr p"
  shows "0 \<le> p \<and> p \<le> n"
proof -
  from assms(1,2) have "n \<in> set (0 # 1 # [2..17])"
    by (simp del: upto_rec_numeral) arith
  with profit_ok_upto_17 have "profit_ok n" by (simp only: list_all_iff)
  with assms(3) show ?thesis by (simp add: profit_ok_def)
qed

lemma cut_of_small:
  assumes "0 \<le> n" "n < 3" "cut_of n = Inr c"
  shows "0 \<le> c \<and> 2 * c \<le> n"
proof -
  from assms(1,2) have "n \<in> set [0, 1, 2]" by auto
  with cut_ok_upto_2 have "cut_ok n" by (simp only: list_all_iff)
  with assms(3) show ?thesis by (simp add: cut_ok_def)
qed

text \<open>A rounded profit is at most the stake and the cut at most half of the profit.\<close>

lemma profit_of_le:
  assumes "profit_of n = Inr p" and n: "0 \<le> n"
  shows "0 \<le> p \<and> p \<le> n"
proof (cases "n < 18")
  case True
  from profit_of_small[OF n True assms(1)] show ?thesis .
next
  case False
  from assms(1) obtain x where x: "int_times_float n (4368491638549381, - 52) = Inr x"
    and p: "p = py_round x"
    by (auto simp: profit_of_def pay_multi_minus_1 split: sum.splits)
  have "0 \<le> fst (4368491638549381 :: int, - 52 :: int)"
       "- 1074 \<le> snd (4368491638549381 :: int, - 52 :: int)" by simp_all
  from round_times_upper[OF x n this float_val_profit]
  have "0 \<le> p" "real_of_int p \<le> real_of_int n * (97 / 100) * (1001 / 1000) + 1 / 2"
    by (simp_all add: p)
  moreover have "real_of_int n * (97 / 100) * (1001 / 1000) + 1 / 2 \<le> real_of_int n"
    using False by simp
  ultimately have "0 \<le> p" "real_of_int p \<le> real_of_int n" by linarith+
  then show ?thesis by simp
qed

lemma cut_of_le:
  assumes "cut_of n = Inr c" and n: "0 \<le> n"
  shows "0 \<le> c \<and> 2 * c \<le> n"
proof (cases "n < 3")
  case True
  from cut_of_small[OF n True assms(1)] show ?thesis .
next
  case False
  from assms(1) obtain x where x: "int_times_float n POT_CUT = Inr x" and c: "c = py_round x"
    by (auto simp: cut_of_def split: sum.splits)
  have "0 \<le> fst POT_CUT" "- 1074 \<le> snd POT_CUT" by (simp_all add: POT_CUT_def)
  from round_times_upper[OF x n this float_val_POT_CUT]
  have "0 \<le> c" "real_of_int c \<le> real_of_int n * (3 / 10) * (1001 / 1000) + 1 / 2"
    by (simp_all add: c)
  moreover have "2 * (real_of_int n * (3 / 10) * (1001 / 1000) + 1 / 2) \<le> real_of_int n"
    using False by simp
  ultimately have "0 \<le> c" "real_of_int (2 * c) \<le> real_of_int n" by simp_all
  then show ?thesis by (simp only: of_int_le_iff)
qed


section \<open>Sums over the bets of a round\<close>

lemma profit_sum_le:
  "profit_sum sd bs = Inr wp \<Longrightarrow> \<forall>p\<in>set bs. 0 \<le> amount (snd p) \<Longrightarrow>
   0 \<le> wp \<and> wp \<le> side_stake sd bs"
proof (induction bs arbitrary: wp)
  case Nil
  then show ?case by (simp add: side_stake_def)
next
  case (Cons q bs)
  from Cons.prems have nn: "\<forall>p\<in>set bs. 0 \<le> amount (snd p)" and nq: "0 \<le> amount (snd q)"
    by auto
  show ?case
  proof (cases "bet_side (snd q) = sd")
    case True
    with Cons.prems(1) obtain x t where x: "profit_of (amount (snd q)) = Inr x"
      and t: "profit_sum sd bs = Inr t" and wp: "wp = x + t"
      by (auto split: sum.splits)
    from profit_of_le[OF x nq] Cons.IH[OF t nn] wp True show ?thesis
      by (simp add: side_stake_def)
  next
    case False
    with Cons.prems(1) have "profit_sum sd bs = Inr wp" by simp
    from Cons.IH[OF this nn] False show ?thesis by (simp add: side_stake_def)
  qed
qed

lemma other_stake_nonneg: "\<forall>p\<in>set bs. 0 \<le> amount (snd p) \<Longrightarrow> 0 \<le> other_stake sd bs"
  by (induction bs) (auto simp: other_stake_def)

section \<open>Payouts and pot contribution against the stakes\<close>

lemma example_single_resolves:
  "close_betting_and_roll 1060 (\<lambda>n. 3) 0 example_single
     = Inr (Some example_hist_single, example_after_single, 3)"
  by (simp add: close_defs example_defs2 example_single_def example_hist_single_def
      example_after_single_def state_defs payout_of_1000 profit_of_1000 cut_of_970 Let_def)

text \<open>
  Claim C8 (the code departs from it).  The module says that 30% of the winners' payout
  profit is deducted to the pot, and the claim bounds what a round hands out by 1.97 times
  its stakes.  In the round of the example with the single bet of 1000 by user 7, which
  wins, the whole payout \<open>int(round(1000 * 1.97)) = 1970\<close> is credited to user 7 and the cut
  \<open>int(round(970 * 0.30)) = 291\<close> is added to the pot on top of it (there is no losing
  stake): the payouts and the pot contribution are 2261 together, more than 1.97 times
  the stakes, 1970.  The cut is not taken from the payout.
\<close>

theorem payouts_and_cut_exceed_197:
  "close_betting_and_roll 1060 (\<lambda>n. 3) 0 example_single
     = Inr (Some example_hist_single, example_after_single, 3) \<and>
   hist_bets example_hist_single = [(7, \<lparr>bet_side = T, amount = 1000\<rparr>)] \<and>
   payouts example_hist_single = [(7, 1970)] \<and>
   balance (the_user example_after_single 7) - balance (the_user example_single 7) = 1970 \<and>
   pot example_after_single - pot example_single = 291 \<and>
   pot_after example_hist_single - pot_before example_hist_single = 291 \<and>
   distributed_from_pot example_hist_single = 0 \<and>
   sum_list (map (\<lambda>p. amount (snd p)) (hist_bets example_hist_single)) = 1000 \<and>
   \<not> 100 * (sum_list (map snd (payouts example_hist_single))
              + (pot_after example_hist_single - pot_before example_hist_single))
        \<le> 197 * sum_list (map (\<lambda>p. amount (snd p)) (hist_bets example_hist_single))"
  using example_single_resolves
  by (simp add: example_hist_single_def example_after_single_def example_single_def
      example_defs the_user_def)

section \<open>The jackpot\<close>

text \<open>The example with two winners: the payouts and rounded profits of the stakes 300 and
  700, and their shares of the pot 5791.\<close>

lemma payout_of_300_700: "payout_of 300 = Inr 591 \<and> payout_of 700 = Inr 1379"
  by (simp add: float_defs)

lemma profit_of_300_700: "profit_of 300 = Inr 291 \<and> profit_of 700 = Inr 679"
  by (simp add: float_defs)

lemma share_of_300_700:
  "share_of 5791 300 1000 = Inr 1737 \<and> share_of 5791 700 1000 = Inr 4054"
  by (simp add: float_defs)

text \<open>The shares are rounded one by one and need not sum to the pot: two equal stakes
  share a pot of 3 as 2 and 2.\<close>

lemma share_of_halves: "share_of 3 1 2 = Inr 2"
  by (simp add: float_defs)

text \<open>One step of \<open>credit_loop\<close>, for a winner and for a loser.\<close>

lemma credit_loop_win:
  "0 < pay \<Longrightarrow> credit_loop ((uid, pay) # ps) d =
     credit_loop ps
       (update_user uid (\<lambda>u. u\<lparr>best_streak := max (best_streak u) (streak u)\<rparr>)
         (update_user uid (\<lambda>u. u\<lparr>streak := streak u + 1\<rparr>)
           (ensure_user uid (add_balance uid pay d))))"
  by (simp add: Let_def)

lemma credit_loop_lose:
  "\<not> 0 < pay \<Longrightarrow> credit_loop ((uid, pay) # ps) d =
     credit_loop ps (update_user uid (\<lambda>u. u\<lparr>streak := 0\<rparr>) (ensure_user uid d))"
  by (simp add: Let_def)

lemma example_jackpot_resolves:
  "close_betting_and_roll 1060 (\<lambda>n. 5) 0 example_jackpot
     = Inr (Some example_hist_jackpot, example_after_jackpot, 3)"
  by (simp add: close_defs example_defs example_jackpot_def example_hist_jackpot_def
      example_after_jackpot_def state_defs payout_of_300_700 profit_of_300_700 cut_of_970
      share_of_300_700 credit_loop_win credit_loop_lose Let_def del: credit_loop.simps(2))

lemma side_stake_nonneg: "\<forall>p\<in>set bs. 0 \<le> amount (snd p) \<Longrightarrow> 0 \<le> side_stake sd bs"
  by (induction bs) (auto simp: side_stake_def)

lemma side_stake_winner:
  "w \<in> set bs \<Longrightarrow> bet_side (snd w) = sd \<Longrightarrow> \<forall>p\<in>set bs. 0 < amount (snd p) \<Longrightarrow>
   0 < amount (snd w) \<and> amount (snd w) \<le> side_stake sd bs"
proof (induction bs)
  case Nil
  then show ?case by simp
next
  case (Cons q bs)
  from Cons.prems(3) have nn: "\<forall>p\<in>set bs. 0 \<le> amount (snd p)" by auto
  from side_stake_nonneg[OF nn] have sn: "0 \<le> side_stake sd bs" .
  show ?case
  proof (cases "w = q")
    case True
    with Cons.prems sn show ?thesis by (simp add: side_stake_def)
  next
    case False
    with Cons.prems have "w \<in> set bs" and p: "\<forall>p\<in>set bs. 0 < amount (snd p)"
      and q: "0 < amount (snd q)" by auto
    from Cons.IH[OF this(1) Cons.prems(2) p] q show ?thesis
      by (auto simp: side_stake_def)
  qed
qed

lemma profits_nonneg:
  "map (\<lambda>p. profit_of (amount (snd p))) ws = map Inr xs \<Longrightarrow>
   \<forall>p\<in>set ws. 0 \<le> amount (snd p) \<Longrightarrow> 0 \<le> sum_list xs"
proof (induction ws arbitrary: xs)
  case Nil
  then show ?case by simp
next
  case (Cons w ws)
  from Cons.prems(1) obtain x ys where xs: "xs = x # ys"
    and x: "profit_of (amount (snd w)) = Inr x"
    and ys: "map (\<lambda>p. profit_of (amount (snd p))) ws = map Inr ys"
    by (cases xs) auto
  from Cons.prems(2) have nw: "0 \<le> amount (snd w)" and nn: "\<forall>p\<in>set ws. 0 \<le> amount (snd p)"
    by auto
  from profit_of_le[OF x nw] Cons.IH[OF ys nn] xs show ?case by simp
qed

text \<open>The effect of a resolved round on the pot and on the balances, with and without the
  jackpot.\<close>

lemma jackpot_effect:
  assumes res: "close_betting_and_roll now rng i d = Inr (Some hr, d', i')"
      and dk: "distinct (map fst (hist_bets hr))"
  shows "\<exists>xs cut.
           map (\<lambda>p. profit_of (amount (snd p)))
               (filter (\<lambda>p. bet_side (snd p) = hist_side hr) (hist_bets hr)) = map Inr xs \<and>
           cut_of (sum_list xs) = Inr cut \<and>
           ((count_list (dice hr) 1 = 3 \<or> count_list (dice hr) 6 = 3) \<and>
            filter (\<lambda>p. bet_side (snd p) = hist_side hr) (hist_bets hr) \<noteq> [] \<longrightarrow>
              pot d' = 0 \<and> pot_after hr = 0 \<and>
              distributed_from_pot hr = pot d + other_stake (hist_side hr) (hist_bets hr) + cut \<and>
              (\<forall>w\<in>set (filter (\<lambda>p. bet_side (snd p) = hist_side hr) (hist_bets hr)).
                 \<exists>pay share.
                   payout_of (amount (snd w)) = Inr pay \<and>
                   (if 0 < side_stake (hist_side hr) (hist_bets hr)
                    then share_of (distributed_from_pot hr) (amount (snd w))
                           (side_stake (hist_side hr) (hist_bets hr))
                    else equal_share_of (distributed_from_pot hr)
                           (int (length (filter (\<lambda>p. bet_side (snd p) = hist_side hr) (hist_bets hr)))))
                     = Inr share \<and>
                   balance (the_user d' (fst w))
                     = balance (the_user d (fst w)) + (if 0 < pay then pay else 0) + share) \<and>
              (\<forall>v. v \<notin> fst ` set (filter (\<lambda>p. bet_side (snd p) = hist_side hr) (hist_bets hr)) \<longrightarrow>
                 balance (the_user d' v) = balance (the_user d v))) \<and>
           (\<not> ((count_list (dice hr) 1 = 3 \<or> count_list (dice hr) 6 = 3) \<and>
               filter (\<lambda>p. bet_side (snd p) = hist_side hr) (hist_bets hr) \<noteq> []) \<longrightarrow>
              distributed_from_pot hr = 0 \<and>
              pot d' = pot d + other_stake (hist_side hr) (hist_bets hr) + cut \<and>
              pot_after hr = pot d')"
proof -
  let ?d1 = "d\<lparr>round_cfg := (round_cfg d)\<lparr>status := Closed\<rparr>\<rparr>"
  let ?sd = "hist_side hr"
  let ?bs = "hist_bets hr"
  let ?winners = "filter (\<lambda>p. bet_side (snd p) = ?sd) ?bs"
  let ?hit = "(count_list (dice hr) 1 = 3 \<or> count_list (dice hr) 6 = 3) \<and> ?winners \<noteq> []"
  from close_decompose[OF res] obtain d2 d3 where
    st: "settle ?sd ?bs ?d1 = Inr (payouts hr, d2)"
    and jp: "jackpot (dice hr) ?winners d2 = Inr (distributed_from_pot hr, d3)"
    and pa: "pot_after hr = pot d3" and p': "pot d' = pot d3" and u': "users d' = users d3"
    by blast
  from settle_effect(1)[OF st dk] obtain xs cut where
    xs: "map (\<lambda>p. profit_of (amount (snd p))) ?winners = map Inr xs"
    and cut: "cut_of (sum_list xs) = Inr cut"
    and p2: "pot d2 = pot d + other_stake ?sd ?bs + cut"
    by auto
  have bal1: "balance (the_user ?d1 v) = balance (the_user d v)" for v
    by (simp add: the_user_def)
  have nohit: "\<not> ?hit \<longrightarrow> distributed_from_pot hr = 0 \<and>
      pot d' = pot d + other_stake ?sd ?bs + cut \<and> pot_after hr = pot d'"
    using jackpot_result[OF jp] p2 pa p' by auto
  have hit: "?hit \<longrightarrow>
      pot d' = 0 \<and> pot_after hr = 0 \<and>
      distributed_from_pot hr = pot d + other_stake ?sd ?bs + cut \<and>
      (\<forall>w\<in>set ?winners.
         \<exists>pay share.
           payout_of (amount (snd w)) = Inr pay \<and>
           (if 0 < side_stake ?sd ?bs
            then share_of (distributed_from_pot hr) (amount (snd w)) (side_stake ?sd ?bs)
            else equal_share_of (distributed_from_pot hr) (int (length ?winners))) = Inr share \<and>
           balance (the_user d' (fst w))
             = balance (the_user d (fst w)) + (if 0 < pay then pay else 0) + share) \<and>
      (\<forall>v. v \<notin> fst ` set ?winners \<longrightarrow> balance (the_user d' v) = balance (the_user d v))"
  proof
    assume h: ?hit
    with jackpot_result[OF jp] obtain dl where
      dp: "distributed_from_pot hr = pot d2"
      and jl: "jackpot_loop (pot d2) (sum_list (map (\<lambda>p. amount (snd p)) ?winners))
                 (int (length ?winners)) ?winners d2 = Inr dl"
      and d3: "d3 = dl\<lparr>pot := 0\<rparr>"
      by blast
    have tws: "sum_list (map (\<lambda>p. amount (snd p)) ?winners) = side_stake ?sd ?bs"
      by (simp add: side_stake_def)
    have ul: "the_user d' v = the_user dl v" for v
      using u' d3 by (simp add: the_user_def)
    have dw: "distinct (map fst ?winners)"
      using dk by (rule distinct_map_filter)
    have winners: "\<forall>w\<in>set ?winners.
         \<exists>pay share.
           payout_of (amount (snd w)) = Inr pay \<and>
           (if 0 < side_stake ?sd ?bs
            then share_of (distributed_from_pot hr) (amount (snd w)) (side_stake ?sd ?bs)
            else equal_share_of (distributed_from_pot hr) (int (length ?winners))) = Inr share \<and>
           balance (the_user d' (fst w))
             = balance (the_user d (fst w)) + (if 0 < pay then pay else 0) + share"
    proof
      fix w assume w: "w \<in> set ?winners"
      then have wb: "w \<in> set ?bs" and ws: "bet_side (snd w) = ?sd" by simp_all
      from settle_effect(2)[OF st dk] wb ws obtain pay where
        pay: "payout_of (amount (snd w)) = Inr pay"
        and b2: "balance (the_user d2 (fst w))
                   = balance (the_user ?d1 (fst w)) + (if 0 < pay then pay else 0)"
        by blast
      from jackpot_loop_share[OF jl dw w] obtain share where
        sh: "(if 0 < side_stake ?sd ?bs
              then share_of (pot d2) (amount (snd w)) (side_stake ?sd ?bs)
              else equal_share_of (pot d2) (int (length ?winners))) = Inr share"
        and b3: "balance (the_user dl (fst w)) = balance (the_user d2 (fst w)) + share"
        unfolding tws by blast
      have b4: "balance (the_user d' (fst w))
             = balance (the_user d (fst w)) + (if 0 < pay then pay else 0) + share"
        using b2 b3 bal1 ul by simp
      have sh': "(if 0 < side_stake ?sd ?bs
            then share_of (distributed_from_pot hr) (amount (snd w)) (side_stake ?sd ?bs)
            else equal_share_of (distributed_from_pot hr) (int (length ?winners))) = Inr share"
        using sh unfolding dp by (simp split: if_splits)
      show "\<exists>pay share.
           payout_of (amount (snd w)) = Inr pay \<and>
           (if 0 < side_stake ?sd ?bs
            then share_of (distributed_from_pot hr) (amount (snd w)) (side_stake ?sd ?bs)
            else equal_share_of (distributed_from_pot hr) (int (length ?winners))) = Inr share \<and>
           balance (the_user d' (fst w))
             = balance (the_user d (fst w)) + (if 0 < pay then pay else 0) + share"
      proof (intro exI conjI)
        show "payout_of (amount (snd w)) = Inr pay" by (rule pay)
        show "(if 0 < side_stake ?sd ?bs
            then share_of (distributed_from_pot hr) (amount (snd w)) (side_stake ?sd ?bs)
            else equal_share_of (distributed_from_pot hr) (int (length ?winners))) = Inr share"
          by (rule sh')
        show "balance (the_user d' (fst w))
             = balance (the_user d (fst w)) + (if 0 < pay then pay else 0) + share"
          by (rule b4)
      qed
    qed
    have others: "\<forall>v. v \<notin> fst ` set ?winners \<longrightarrow> balance (the_user d' v) = balance (the_user d v)"
    proof (intro allI impI)
      fix v assume nv: "v \<notin> fst ` set ?winners"
      have b2: "balance (the_user d2 v) = balance (the_user ?d1 v)"
      proof (cases "v \<in> fst ` set ?bs")
        case True
        then obtain p where p: "p \<in> set ?bs" "fst p = v" by auto
        with nv have "bet_side (snd p) \<noteq> ?sd" by force
        with settle_effect(2)[OF st dk] p show ?thesis by blast
      next
        case False
        with settle_effect(3)[OF st dk] show ?thesis by blast
      qed
      from jackpot_loop_other[OF jl nv] b2 bal1 ul
      show "balance (the_user d' v) = balance (the_user d v)" by simp
    qed
    from d3 p' pa dp p2 winners others
    show "pot d' = 0 \<and> pot_after hr = 0 \<and>
      distributed_from_pot hr = pot d + other_stake ?sd ?bs + cut \<and>
      (\<forall>w\<in>set ?winners.
         \<exists>pay share.
           payout_of (amount (snd w)) = Inr pay \<and>
           (if 0 < side_stake ?sd ?bs
            then share_of (distributed_from_pot hr) (amount (snd w)) (side_stake ?sd ?bs)
            else equal_share_of (distributed_from_pot hr) (int (length ?winners))) = Inr share \<and>
           balance (the_user d' (fst w))
             = balance (the_user d (fst w)) + (if 0 < pay then pay else 0) + share) \<and>
      (\<forall>v. v \<notin> fst ` set ?winners \<longrightarrow> balance (the_user d' v) = balance (the_user d v))"
      by simp
  qed
  from xs cut hit nohit show ?thesis
    by (intro exI[of _ xs] exI[of _ cut] conjI)
qed

text \<open>
  Claim C3.  When \<open>close_betting_and_roll\<close> resolves a round and returns its record
  \<open>hr\<close>: if the three dice are all 1 or all 6 and there is a bet on the winning side, the
  pot is 0 afterwards (in the data and in the record), the amount distributed is the whole
  pot as it was after the settlement (pot before the round, plus the losing stakes, plus
  the cut), every winner's balance has grown by the payout and by the share
  \<open>int(round(pot * (stake / total winning stakes)))\<close> (\<open>share_of\<close>; the equal split
  \<open>equal_share_of\<close> is taken only when the winning stakes do not sum to more than 0), and
  no other balance has changed.  The share is proportional to the stake: when the stakes
  of the round are positive and the pot before the round is not negative, it differs from
  the exact part \<open>pot * stake / total winning stakes\<close> by the rounding to an integer, at
  most \<open>1 / 2\<close>, and by the error of the float operations (the division, the conversion
  of the pot and the multiplication), at most a \<open>2 ^ -49\<close>-th of the part plus 1.  In every other resolved round, also when the dice are all 1 or all
  6 and nobody has won, nothing is distributed and the pot is what the settlement left:
  the pot before the round plus the losing stakes plus the cut.
\<close>

theorem jackpot_drains_pot:
  assumes res: "close_betting_and_roll now rng i d = Inr (Some hr, d', i')"
      and dk: "distinct (map fst (hist_bets hr))"
  shows "\<exists>xs cut.
           map (\<lambda>p. profit_of (amount (snd p)))
               (filter (\<lambda>p. bet_side (snd p) = hist_side hr) (hist_bets hr)) = map Inr xs \<and>
           cut_of (sum_list xs) = Inr cut \<and>
           ((count_list (dice hr) 1 = 3 \<or> count_list (dice hr) 6 = 3) \<and>
            filter (\<lambda>p. bet_side (snd p) = hist_side hr) (hist_bets hr) \<noteq> [] \<longrightarrow>
              pot d' = 0 \<and> pot_after hr = 0 \<and>
              distributed_from_pot hr = pot d + other_stake (hist_side hr) (hist_bets hr) + cut \<and>
              (\<forall>w\<in>set (filter (\<lambda>p. bet_side (snd p) = hist_side hr) (hist_bets hr)).
                 \<exists>pay share.
                   payout_of (amount (snd w)) = Inr pay \<and>
                   (if 0 < side_stake (hist_side hr) (hist_bets hr)
                    then share_of (distributed_from_pot hr) (amount (snd w))
                           (side_stake (hist_side hr) (hist_bets hr))
                    else equal_share_of (distributed_from_pot hr)
                           (int (length (filter (\<lambda>p. bet_side (snd p) = hist_side hr) (hist_bets hr)))))
                     = Inr share \<and>
                   balance (the_user d' (fst w))
                     = balance (the_user d (fst w)) + (if 0 < pay then pay else 0) + share \<and>
                   ((\<forall>p\<in>set (hist_bets hr). 0 < amount (snd p)) \<and> 0 \<le> pot d \<longrightarrow>
                      share_of (distributed_from_pot hr) (amount (snd w))
                        (side_stake (hist_side hr) (hist_bets hr)) = Inr share \<and>
                      \<bar>real_of_int share
                         - real_of_int (distributed_from_pot hr) * real_of_int (amount (snd w))
                             / real_of_int (side_stake (hist_side hr) (hist_bets hr))\<bar>
                        \<le> 1 / 2
                           + (real_of_int (distributed_from_pot hr) * real_of_int (amount (snd w))
                                / real_of_int (side_stake (hist_side hr) (hist_bets hr)) + 1) / 2 ^ 49)) \<and>
              (\<forall>v. v \<notin> fst ` set (filter (\<lambda>p. bet_side (snd p) = hist_side hr) (hist_bets hr)) \<longrightarrow>
                 balance (the_user d' v) = balance (the_user d v))) \<and>
           (\<not> ((count_list (dice hr) 1 = 3 \<or> count_list (dice hr) 6 = 3) \<and>
               filter (\<lambda>p. bet_side (snd p) = hist_side hr) (hist_bets hr) \<noteq> []) \<longrightarrow>
              distributed_from_pot hr = 0 \<and>
              pot d' = pot d + other_stake (hist_side hr) (hist_bets hr) + cut \<and>
              pot_after hr = pot d')"
proof -
  let ?sd = "hist_side hr"
  let ?bs = "hist_bets hr"
  let ?winners = "filter (\<lambda>p. bet_side (snd p) = ?sd) ?bs"
  let ?hit = "(count_list (dice hr) 1 = 3 \<or> count_list (dice hr) 6 = 3) \<and> ?winners \<noteq> []"
  let ?tws = "side_stake ?sd ?bs"
  let ?part = "\<lambda>w. real_of_int (distributed_from_pot hr) * real_of_int (amount (snd w))
                       / real_of_int ?tws"
  let ?pos = "(\<forall>p\<in>set ?bs. 0 < amount (snd p)) \<and> 0 \<le> pot d"
  from jackpot_effect[OF res dk] obtain xs cut where
    xs: "map (\<lambda>p. profit_of (amount (snd p))) ?winners = map Inr xs"
    and cut: "cut_of (sum_list xs) = Inr cut"
    and hit: "?hit \<longrightarrow>
      pot d' = 0 \<and> pot_after hr = 0 \<and>
      distributed_from_pot hr = pot d + other_stake ?sd ?bs + cut \<and>
      (\<forall>w\<in>set ?winners.
         \<exists>pay share.
           payout_of (amount (snd w)) = Inr pay \<and>
           (if 0 < ?tws
            then share_of (distributed_from_pot hr) (amount (snd w)) ?tws
            else equal_share_of (distributed_from_pot hr) (int (length ?winners))) = Inr share \<and>
           balance (the_user d' (fst w))
             = balance (the_user d (fst w)) + (if 0 < pay then pay else 0) + share) \<and>
      (\<forall>v. v \<notin> fst ` set ?winners \<longrightarrow> balance (the_user d' v) = balance (the_user d v))"
    and nohit: "\<not> ?hit \<longrightarrow> distributed_from_pot hr = 0 \<and>
      pot d' = pot d + other_stake ?sd ?bs + cut \<and> pot_after hr = pot d'"
    by (elim exE conjE)
  have winners: "\<forall>w\<in>set ?winners.
         \<exists>pay share.
           payout_of (amount (snd w)) = Inr pay \<and>
           (if 0 < ?tws
            then share_of (distributed_from_pot hr) (amount (snd w)) ?tws
            else equal_share_of (distributed_from_pot hr) (int (length ?winners))) = Inr share \<and>
           balance (the_user d' (fst w))
             = balance (the_user d (fst w)) + (if 0 < pay then pay else 0) + share \<and>
           (?pos \<longrightarrow>
              share_of (distributed_from_pot hr) (amount (snd w)) ?tws = Inr share \<and>
              \<bar>real_of_int share - ?part w\<bar> \<le> 1 / 2 + (?part w + 1) / 2 ^ 49)"
    if h: "?hit"
  proof
    fix w assume w: "w \<in> set ?winners"
    then have wb: "w \<in> set ?bs" and ws: "bet_side (snd w) = ?sd" by simp_all
    from hit h w obtain pay share where
      pay: "payout_of (amount (snd w)) = Inr pay"
      and sh: "(if 0 < ?tws
            then share_of (distributed_from_pot hr) (amount (snd w)) ?tws
            else equal_share_of (distributed_from_pot hr) (int (length ?winners))) = Inr share"
      and bal: "balance (the_user d' (fst w))
             = balance (the_user d (fst w)) + (if 0 < pay then pay else 0) + share"
      by blast
    from hit h have dp: "distributed_from_pot hr = pot d + other_stake ?sd ?bs + cut" by blast
    have bound: "?pos \<longrightarrow>
              share_of (distributed_from_pot hr) (amount (snd w)) ?tws = Inr share \<and>
              \<bar>real_of_int share - ?part w\<bar> \<le> 1 / 2 + (?part w + 1) / 2 ^ 49"
    proof
      assume pos: ?pos
      then have p: "\<forall>p\<in>set ?bs. 0 < amount (snd p)" and pd: "0 \<le> pot d" by simp_all
      from p have nn: "\<forall>p\<in>set ?bs. 0 \<le> amount (snd p)" by (simp add: order_less_imp_le)
      then have nw: "\<forall>p\<in>set ?winners. 0 \<le> amount (snd p)" by simp
      from side_stake_winner[OF wb ws p] have a: "0 < amount (snd w)" and t: "0 < ?tws"
        by simp_all
      from sh t have sh': "share_of (distributed_from_pot hr) (amount (snd w)) ?tws = Inr share"
        by simp
      from cut_of_le[OF cut profits_nonneg[OF xs nw]] have "0 \<le> cut" by simp
      with other_stake_nonneg[OF nn, of ?sd] pd dp have d0: "0 \<le> distributed_from_pot hr"
        by simp
      from share_of_error[OF sh' d0 a t] sh'
      show "share_of (distributed_from_pot hr) (amount (snd w)) ?tws = Inr share \<and>
              \<bar>real_of_int share - ?part w\<bar> \<le> 1 / 2 + (?part w + 1) / 2 ^ 49"
        by simp
    qed
    show "\<exists>pay share.
           payout_of (amount (snd w)) = Inr pay \<and>
           (if 0 < ?tws
            then share_of (distributed_from_pot hr) (amount (snd w)) ?tws
            else equal_share_of (distributed_from_pot hr) (int (length ?winners))) = Inr share \<and>
           balance (the_user d' (fst w))
             = balance (the_user d (fst w)) + (if 0 < pay then pay else 0) + share \<and>
           (?pos \<longrightarrow>
              share_of (distributed_from_pot hr) (amount (snd w)) ?tws = Inr share \<and>
              \<bar>real_of_int share - ?part w\<bar> \<le> 1 / 2 + (?part w + 1) / 2 ^ 49)"
    proof (intro exI conjI)
      show "payout_of (amount (snd w)) = Inr pay" by (rule pay)
      show "(if 0 < ?tws
            then share_of (distributed_from_pot hr) (amount (snd w)) ?tws
            else equal_share_of (distributed_from_pot hr) (int (length ?winners))) = Inr share"
        by (rule sh)
      show "balance (the_user d' (fst w))
             = balance (the_user d (fst w)) + (if 0 < pay then pay else 0) + share"
        by (rule bal)
      show "?pos \<longrightarrow>
              share_of (distributed_from_pot hr) (amount (snd w)) ?tws = Inr share \<and>
              \<bar>real_of_int share - ?part w\<bar> \<le> 1 / 2 + (?part w + 1) / 2 ^ 49"
        by (rule bound)
    qed
  qed
  have hit': "?hit \<longrightarrow>
      pot d' = 0 \<and> pot_after hr = 0 \<and>
      distributed_from_pot hr = pot d + other_stake ?sd ?bs + cut \<and>
      (\<forall>w\<in>set ?winners.
         \<exists>pay share.
           payout_of (amount (snd w)) = Inr pay \<and>
           (if 0 < ?tws
            then share_of (distributed_from_pot hr) (amount (snd w)) ?tws
            else equal_share_of (distributed_from_pot hr) (int (length ?winners))) = Inr share \<and>
           balance (the_user d' (fst w))
             = balance (the_user d (fst w)) + (if 0 < pay then pay else 0) + share \<and>
           (?pos \<longrightarrow>
              share_of (distributed_from_pot hr) (amount (snd w)) ?tws = Inr share \<and>
              \<bar>real_of_int share - ?part w\<bar> \<le> 1 / 2 + (?part w + 1) / 2 ^ 49)) \<and>
      (\<forall>v. v \<notin> fst ` set ?winners \<longrightarrow> balance (the_user d' v) = balance (the_user d v))"
  proof
    assume h: ?hit
    from hit h have 1: "pot d' = 0" and 2: "pot_after hr = 0"
      and 3: "distributed_from_pot hr = pot d + other_stake ?sd ?bs + cut"
      and 4: "\<forall>v. v \<notin> fst ` set ?winners \<longrightarrow> balance (the_user d' v) = balance (the_user d v)"
      by blast+
    from 1 2 3 winners[OF h] 4 show "pot d' = 0 \<and> pot_after hr = 0 \<and>
      distributed_from_pot hr = pot d + other_stake ?sd ?bs + cut \<and>
      (\<forall>w\<in>set ?winners.
         \<exists>pay share.
           payout_of (amount (snd w)) = Inr pay \<and>
           (if 0 < ?tws
            then share_of (distributed_from_pot hr) (amount (snd w)) ?tws
            else equal_share_of (distributed_from_pot hr) (int (length ?winners))) = Inr share \<and>
           balance (the_user d' (fst w))
             = balance (the_user d (fst w)) + (if 0 < pay then pay else 0) + share \<and>
           (?pos \<longrightarrow>
              share_of (distributed_from_pot hr) (amount (snd w)) ?tws = Inr share \<and>
              \<bar>real_of_int share - ?part w\<bar> \<le> 1 / 2 + (?part w + 1) / 2 ^ 49)) \<and>
      (\<forall>v. v \<notin> fst ` set ?winners \<longrightarrow> balance (the_user d' v) = balance (the_user d v))"
      by (intro conjI)
  qed
  from xs cut hit' nohit show ?thesis
    by (intro exI[of _ xs] exI[of _ cut] conjI)
qed

text \<open>The example with the stakes 300 and 700 on \<open>X\<close> and 500 on \<open>T\<close>, resolved by three
  dice showing 6: the pot 5791 is distributed as 1737 and 4054, which are the exact parts
  1737.3 and 4053.7 rounded, and the pot is 0 afterwards.\<close>

theorem jackpot_drains_pot_witness:
  "close_betting_and_roll 1060 (\<lambda>n. 5) 0 example_jackpot
     = Inr (Some example_hist_jackpot, example_after_jackpot, 3) \<and>
   distinct (map fst (hist_bets example_hist_jackpot)) \<and>
   list_all (\<lambda>p. 0 < amount (snd p)) (hist_bets example_hist_jackpot) \<and>
   0 \<le> pot example_jackpot \<and>
   dice example_hist_jackpot = [6, 6, 6] \<and>
   filter (\<lambda>p. bet_side (snd p) = hist_side example_hist_jackpot) (hist_bets example_hist_jackpot)
     = [(7, \<lparr>bet_side = X, amount = 300\<rparr>), (8, \<lparr>bet_side = X, amount = 700\<rparr>)] \<and>
   side_stake (hist_side example_hist_jackpot) (hist_bets example_hist_jackpot) = 1000 \<and>
   pot example_after_jackpot = 0 \<and> pot_after example_hist_jackpot = 0 \<and>
   distributed_from_pot example_hist_jackpot = pot example_jackpot + 500 + 291 \<and>
   share_of 5791 300 1000 = Inr 1737 \<and> share_of 5791 700 1000 = Inr 4054 \<and>
   \<bar>1737 - 5791 * 300 / 1000\<bar> \<le> (1 / 2 + (5791 * 300 / 1000 + 1) / 2 ^ 49 :: real) \<and>
   \<bar>4054 - 5791 * 700 / 1000\<bar> \<le> (1 / 2 + (5791 * 700 / 1000 + 1) / 2 ^ 49 :: real) \<and>
   balance (the_user example_after_jackpot 7) = balance (the_user example_jackpot 7) + 591 + 1737 \<and>
   balance (the_user example_after_jackpot 8) = balance (the_user example_jackpot 8) + 1379 + 4054 \<and>
   balance (the_user example_after_jackpot 9) = balance (the_user example_jackpot 9)"
proof -
  have d: "distinct (map fst (hist_bets example_hist_jackpot))"
    by (simp add: example_hist_jackpot_def)
  show ?thesis
    using jackpot_drains_pot[OF example_jackpot_resolves d] example_jackpot_resolves d
      share_of_300_700
    by (simp add: example_defs example_jackpot_def example_hist_jackpot_def
        example_after_jackpot_def the_user_def side_stake_def)
qed

section \<open>The bets of a round and the pot in every reachable state\<close>

text \<open>
  The settlement theorems above take a round whose bets have one entry per user, and the
  bound on the jackpot shares takes positive stakes and a pot that is not negative.  All
  three hold in every state that the operations of the bot reach from the default data:
  \<open>bids[str(uid)] = ...\<close> keeps one entry per user, \<open>handle_bet_command\<close> refuses an
  amount that is not positive, and the pot only receives losing stakes and cuts, which are
  not negative, or is set to 0.
\<close>

lemma bets_wf_default: "bets_wf default_data"
  by (simp add: bets_wf_def default_data_def)

lemma bets_wf_same_bets: "bets d' = bets d \<Longrightarrow> bets_wf d \<Longrightarrow> bets_wf d'"
  by (simp add: bets_wf_def)

lemma bets_ensure_user [simp]: "bets (ensure_user uid d) = bets d"
  using only_users_changedD(2)[OF only_users_ensure_user] .

lemma bets_update_user [simp]: "bets (update_user uid f d) = bets d"
  using only_users_changedD(2)[OF only_users_update_user] .

lemma bets_add_balance [simp]: "bets (add_balance uid amt d) = bets d"
  using only_users_changedD(2)[OF only_users_add_balance] .

lemma bets_sub_balance [simp]: "bets (sub_balance uid amt d) = bets d"
  by (simp add: sub_balance_def)

lemma bets_get_balance [simp]: "bets (snd (get_balance uid d)) = bets d"
  by (simp add: get_balance_def Let_def)

lemma alist_update_all:
  "\<forall>p\<in>set al. P p \<Longrightarrow> P (k, v) \<Longrightarrow> \<forall>p\<in>set (AList.update k v al). P p"
  by (induction al) auto

lemma bets_wfD:
  assumes "bets_wf d" and "bets d rid = Some bs"
  shows "distinct (map fst bs)" and "\<forall>p\<in>set bs. 0 < amount (snd p)"
  using assms unfolding bets_wf_def by blast+

lemma bets_wf_fun_upd:
  assumes "bets_wf d" and "distinct (map fst bs)" and "\<forall>p\<in>set bs. 0 < amount (snd p)"
      and "bets d' = (bets d)(rid \<mapsto> bs)"
  shows "bets_wf d'"
  unfolding bets_wf_def
proof (intro allI impI)
  fix r xs assume x: "bets d' r = Some xs"
  show "distinct (map fst xs) \<and> (\<forall>p\<in>set xs. 0 < amount (snd p))"
  proof (cases "r = rid")
    case True
    with x assms(4) have "xs = bs" by simp
    with assms(2,3) show ?thesis by simp
  next
    case False
    with x assms(4) have "bets d r = Some xs" by simp
    with bets_wfD[OF assms(1) this] show ?thesis by simp
  qed
qed

lemma bets_wf_remove:
  assumes "bets_wf d" and "bets d' = (bets d)(rid := None)"
  shows "bets_wf d'"
  unfolding bets_wf_def
proof (intro allI impI)
  fix r xs assume x: "bets d' r = Some xs"
  with assms(2) have "bets d r = Some xs" by (cases "r = rid") simp_all
  with bets_wfD[OF assms(1) this] show "distinct (map fst xs) \<and> (\<forall>p\<in>set xs. 0 < amount (snd p))"
    by simp
qed

lemma bets_wf_handle_bet:
  assumes "bets_wf d"
  shows "bets_wf (snd (handle_bet_command uid sd amt d))"
proof (cases "fst (handle_bet_command uid sd amt d)")
  case (BetAccepted rid bal)
  then have eq: "handle_bet_command uid sd amt d = (BetAccepted rid bal, snd (handle_bet_command uid sd amt d))"
    by (metis prod.collapse)
  let ?bs = "case bets d rid of None \<Rightarrow> [] | Some bs \<Rightarrow> bs"
  from handle_bet_command_accepted[OF eq]
  have amt: "0 < amt" and rid: "rid = round_id (round_cfg d)"
    by blast+
  have "distinct (map fst ?bs) \<and> (\<forall>p\<in>set ?bs. 0 < amount (snd p))"
  proof (cases "bets d rid")
    case None
    then show ?thesis by simp
  next
    case (Some xs)
    with bets_wfD[OF assms Some] show ?thesis by simp
  qed
  then have d: "distinct (map fst ?bs)" and p: "\<forall>p\<in>set ?bs. 0 < amount (snd p)"
    by simp_all
  have 1: "distinct (map fst (AList.update uid \<lparr>bet_side = sd, amount = amt\<rparr> ?bs))"
    using d by (rule distinct_update)
  have 2: "\<forall>p\<in>set (AList.update uid \<lparr>bet_side = sd, amount = amt\<rparr> ?bs). 0 < amount (snd p)"
    using p by (rule alist_update_all) (simp add: amt)
  have 3: "bets (snd (handle_bet_command uid sd amt d))
             = (bets d)(rid \<mapsto> AList.update uid \<lparr>bet_side = sd, amount = amt\<rparr> ?bs)"
    using BetAccepted rid
    by (auto simp: handle_bet_command_def Let_def split: if_splits)
  from bets_wf_fun_upd[OF assms 1 2 3] show ?thesis .
next
  case BettingClosed
  then have "bets (snd (handle_bet_command uid sd amt d)) = bets d"
    by (auto simp: handle_bet_command_def Let_def split: if_splits)
  with assms show ?thesis by (simp add: bets_wf_def)
next
  case BonusLimit
  then have "bets (snd (handle_bet_command uid sd amt d)) = bets d"
    by (auto simp: handle_bet_command_def Let_def split: if_splits)
  with assms show ?thesis by (simp add: bets_wf_def)
next
  case InvalidAmount
  then have "bets (snd (handle_bet_command uid sd amt d)) = bets d"
    by (auto simp: handle_bet_command_def Let_def split: if_splits)
  with assms show ?thesis by (simp add: bets_wf_def)
next
  case InsufficientFunds
  then have "bets (snd (handle_bet_command uid sd amt d)) = bets d"
    by (auto simp: handle_bet_command_def Let_def split: if_splits)
  with assms show ?thesis by (simp add: bets_wf_def)
qed


lemma bets_wf_start_cmd: "bets_wf d \<Longrightarrow> bets_wf (snd (start_cmd uid d))"
proof -
  have "bets (snd (start_cmd uid d)) = bets d"
    by (simp add: start_cmd_def give_first_bonus_if_needed_def Let_def)
  then show "bets_wf d \<Longrightarrow> bets_wf (snd (start_cmd uid d))" by (simp add: bets_wf_def)
qed

lemma bets_wf_balance_cmd: "bets_wf d \<Longrightarrow> bets_wf (snd (balance_cmd uid d))"
  by (simp add: bets_wf_def balance_cmd_def)

lemma bets_wf_open_new_round: "bets_wf d \<Longrightarrow> bets_wf (snd (open_new_round cfg now d))"
proof -
  assume wf: "bets_wf d"
  obtain rid where "bets (snd (open_new_round cfg now d)) = (bets d)(rid \<mapsto> [])"
    by (simp add: open_new_round_def Let_def)
  from bets_wf_fun_upd[OF wf _ _ this] show ?thesis by simp
qed

lemma bets_wf_open_bet_cmd: "bets_wf d \<Longrightarrow> bets_wf (snd (open_bet_cmd cfg now uid d))"
  by (simp add: open_bet_cmd_def Let_def bets_wf_open_new_round)

lemma bets_wf_deposit_cmd: "bets_wf d \<Longrightarrow> bets_wf (deposit_cmd now_ms now uid amt d)"
  by (simp add: deposit_cmd_def bets_wf_def)

lemma bets_wf_withdraw_cmd: "bets_wf d \<Longrightarrow> bets_wf (snd (withdraw_cmd now_ms now uid amt d))"
proof -
  have "bets (snd (withdraw_cmd now_ms now uid amt d)) = bets d"
    by (simp add: withdraw_cmd_def Let_def)
  then show "bets_wf d \<Longrightarrow> bets_wf (snd (withdraw_cmd now_ms now uid amt d))"
    by (simp add: bets_wf_def)
qed

lemma bets_wf_callback: "bets_wf d \<Longrightarrow> bets_wf (snd (callback_query_handler cfg admin cb d))"
proof -
  have "bets (snd (callback_query_handler cfg admin cb d)) = bets d"
    by (cases cb) (simp_all add: callback_query_handler_def split: option.splits)
  then show "bets_wf d \<Longrightarrow> bets_wf (snd (callback_query_handler cfg admin cb d))"
    by (simp add: bets_wf_def)
qed

lemma bets_wf_admin_setnext: "bets_wf d \<Longrightarrow> bets_wf (admin_setnext cfg uid v d)"
  by (simp add: admin_setnext_def bets_wf_def)

lemma bets_wf_admin_setbias: "bets_wf d \<Longrightarrow> bets_wf (admin_setbias cfg uid v d)"
  by (simp add: admin_setbias_def bets_wf_def split: sum.splits)

lemma bets_wf_admin_credit: "bets_wf d \<Longrightarrow> bets_wf (admin_credit cfg uid target amt d)"
  by (simp add: admin_credit_def bets_wf_def)

lemma bets_credit_loop [simp]: "bets (credit_loop ps d) = bets d"
  using only_users_changedD(2)[OF only_users_credit_loop] .

lemma bets_settle:
  assumes "settle sd bs d = Inl (err, d') \<or> settle sd bs d = Inr (pays, d')"
  shows "bets d' = bets d"
  using assms by (auto simp: settle_def Let_def split: sum.splits)

lemma bets_jackpot_loop:
  "jackpot_loop pa tws n ws d = Inl (err, d') \<or> jackpot_loop pa tws n ws d = Inr d'
     \<Longrightarrow> bets d' = bets d"
proof (induction ws arbitrary: d)
  case Nil
  then show ?case by simp
next
  case (Cons w ws)
  show ?case
  proof (cases "if 0 < tws then share_of pa (amount (snd w)) tws else equal_share_of pa n")
    case (Inl e)
    with Cons.prems show ?thesis by simp
  next
    case (Inr share)
    with Cons.prems have "jackpot_loop pa tws n ws (add_balance (fst w) share d) = Inl (err, d')
        \<or> jackpot_loop pa tws n ws (add_balance (fst w) share d) = Inr d'"
      by simp
    from Cons.IH[OF this] show ?thesis by simp
  qed
qed

lemma bets_jackpot:
  assumes "jackpot dc winners d = Inl (err, d') \<or> jackpot dc winners d = Inr (paid, d')"
  shows "bets d' = bets d"
proof (cases "(count_list dc 1 = 3 \<or> count_list dc 6 = 3) \<and> winners \<noteq> []")
  case False
  with assms show ?thesis by (auto simp: jackpot_def split: if_splits)
next
  case True
  let ?r = "jackpot_loop (pot d) (sum_list (map (\<lambda>p. amount (snd p)) winners))
              (int (length winners)) winners d"
  show ?thesis
  proof (cases ?r)
    case (Inl e)
    with assms True have "?r = Inl (err, d')"
      by (simp add: jackpot_def Let_def)
    then show ?thesis using bets_jackpot_loop by blast
  next
    case (Inr d2)
    with assms True have d': "d' = d2\<lparr>pot := 0\<rparr>"
      by (simp add: jackpot_def Let_def)
    have "bets d2 = bets d" using Inr bets_jackpot_loop by blast
    then show ?thesis unfolding d' by simp
  qed
qed

lemma bets_close:
  assumes "close_betting_and_roll now rng i d = Inl (err, d')
           \<or> close_betting_and_roll now rng i d = Inr (res, d', i')"
  shows "bets d' = bets d \<or> bets d' = (bets d)(round_id (round_cfg d) := None)"
proof (cases "status (round_cfg d) = Open")
  case False
  with assms show ?thesis by (simp add: close_betting_and_roll_def)
next
  case True
  define d1 where "d1 = d\<lparr>round_cfg := (round_cfg d)\<lparr>status := Closed\<rparr>\<rparr>"
  define dc where "dc = fst (choose_dice d1 rng i)"
  define sd where "sd = side_of_total (sum_list dc)"
  define bs where "bs = (case bets d1 (round_id (round_cfg d)) of None \<Rightarrow> [] | Some bs \<Rightarrow> bs)"
  have g1: "bets d1 = bets d" by (simp add: d1_def)
  show ?thesis
  proof (cases "settle sd bs d1")
    case (Inl e)
    with assms True have "settle sd bs d1 = Inl (err, d')"
      by (simp add: close_betting_and_roll_def Let_def d1_def dc_def sd_def bs_def)
    then show ?thesis using bets_settle g1 by metis
  next
    case (Inr r)
    obtain pays d2 where r: "r = (pays, d2)" by (cases r)
    have g2: "bets d2 = bets d"
      using Inr r bets_settle g1 by metis
    show ?thesis
    proof (cases "jackpot dc (filter (\<lambda>p. bet_side (snd p) = sd) bs) d2")
      case (Inl e)
      with assms True Inr r have "jackpot dc (filter (\<lambda>p. bet_side (snd p) = sd) bs) d2 = Inl (err, d')"
        by (simp add: close_betting_and_roll_def Let_def d1_def dc_def sd_def bs_def)
      then have "bets d' = bets d2" using bets_jackpot by blast
      then show ?thesis using g2 by simp
    next
      case (Inr q)
      obtain paid d3 where q: "q = (paid, d3)" by (cases q)
      have "bets d3 = bets d2" using Inr q bets_jackpot by blast
      then have g3: "bets d3 = bets d" using g2 by simp
      have "d' = d3 \<or> (\<exists>h r. d' = d3\<lparr>history := h, bets := (bets d3)(round_id (round_cfg d) := None),
                                        round_cfg := r\<rparr>)"
        using assms True \<open>settle sd bs d1 = Inr r\<close> r Inr q
        by (auto simp: close_betting_and_roll_def Let_def d1_def dc_def sd_def bs_def
            split: option.splits)
      then show ?thesis using g3 by auto
    qed
  qed
qed

lemma bets_wf_close:
  assumes "bets_wf d"
    and "close_betting_and_roll now rng i d = Inl (err, d')
         \<or> close_betting_and_roll now rng i d = Inr (res, d', i')"
  shows "bets_wf d'"
  using bets_close[OF assms(2)] assms(1) bets_wf_remove bets_wf_same_bets by blast

lemma bets_wf_run_operation: "bets_wf d \<Longrightarrow> bets_wf (run_operation cfg op d)"
proof (cases op)
  case (OpSchedulerClose now rng i)
  assume wf: "bets_wf d"
  show ?thesis
  proof (cases "close_betting_and_roll now rng i d")
    case (Inl e)
    obtain err d' where e: "e = (err, d')" by (cases e)
    with Inl bets_wf_close[OF wf, of now rng i err d'] OpSchedulerClose show ?thesis by simp
  next
    case (Inr r)
    obtain res d' i' where r: "r = (res, d', i')" by (cases r)
    with Inr bets_wf_close[OF wf, of now rng i _ d' res i'] OpSchedulerClose show ?thesis by simp
  qed
qed (simp_all add: bets_wf_start_cmd bets_wf_balance_cmd bets_wf_handle_bet bets_wf_open_bet_cmd
       bets_wf_deposit_cmd bets_wf_withdraw_cmd bets_wf_callback bets_wf_admin_setnext
       bets_wf_admin_setbias bets_wf_admin_credit bets_wf_open_new_round)


lemma bets_wf_fold:
  "bets_wf d \<Longrightarrow> bets_wf (fold (run_operation cfg) ops d)"
  by (induction ops arbitrary: d) (simp_all add: bets_wf_run_operation)

lemma bets_wf_reachable: "bets_wf (fold (run_operation cfg) ops default_data)"
  by (rule bets_wf_fold[OF bets_wf_default])

lemma bets_wf_resolved_round:
  assumes "bets_wf d"
      and "close_betting_and_roll now rng i d = Inr (Some hr, d', i')"
  shows "distinct (map fst (hist_bets hr))"
    and "\<forall>p\<in>set (hist_bets hr). 0 < amount (snd p)"
proof -
  from close_decompose[OF assms(2)]
  have b: "bets d (round_id (round_cfg d)) = Some (hist_bets hr)" by blast
  from bets_wfD(1)[OF assms(1) b] show "distinct (map fst (hist_bets hr))" .
  from bets_wfD(2)[OF assms(1) b] show "\<forall>p\<in>set (hist_bets hr). 0 < amount (snd p)" .
qed

lemma pot_ensure_user [simp]: "pot (ensure_user uid d) = pot d"
  using only_users_changedD(1)[OF only_users_ensure_user] .

lemma pot_update_user [simp]: "pot (update_user uid f d) = pot d"
  using only_users_changedD(1)[OF only_users_update_user] .

lemma pot_add_balance [simp]: "pot (add_balance uid amt d) = pot d"
  using only_users_changedD(1)[OF only_users_add_balance] .

lemma pot_sub_balance [simp]: "pot (sub_balance uid amt d) = pot d"
  by (simp add: sub_balance_def)

lemma pot_get_balance [simp]: "pot (snd (get_balance uid d)) = pot d"
  by (simp add: get_balance_def Let_def)

lemma pot_credit_loop [simp]: "pot (credit_loop ps d) = pot d"
  using only_users_changedD(1)[OF only_users_credit_loop] .

lemma pot_handlers:
  "pot (snd (start_cmd uid d)) = pot d"
  "pot (snd (balance_cmd uid d)) = pot d"
  "pot (snd (handle_bet_command uid sd amt d)) = pot d"
  "pot (snd (open_new_round cfg now d)) = pot d"
  "pot (snd (open_bet_cmd cfg now uid d)) = pot d"
  "pot (deposit_cmd now_ms now uid amt d) = pot d"
  "pot (snd (withdraw_cmd now_ms now uid amt d)) = pot d"
  "pot (admin_setnext cfg uid v d) = pot d"
  "pot (admin_setbias cfg uid w d) = pot d"
  "pot (admin_credit cfg uid target amt d) = pot d"
  by (simp_all add: start_cmd_def give_first_bonus_if_needed_def balance_cmd_def
      handle_bet_command_def open_new_round_def open_bet_cmd_def deposit_cmd_def
      withdraw_cmd_def admin_setnext_def admin_setbias_def admin_credit_def Let_def
      split: sum.splits)

lemma pot_callback: "pot (snd (callback_query_handler cfg admin cb d)) = pot d"
  by (cases cb) (simp_all add: callback_query_handler_def split: option.splits)

lemma pot_settle:
  assumes "settle sd bs d = Inl (err, d') \<or> settle sd bs d = Inr (pays, d')"
      and nn: "\<forall>p\<in>set bs. 0 \<le> amount (snd p)" and p: "0 \<le> pot d"
  shows "0 \<le> pot d'"
proof -
  have on: "0 \<le> other_stake sd bs" using nn by (rule other_stake_nonneg)
  have c: "0 \<le> cut" if "profit_sum sd bs = Inr wp" "cut_of wp = Inr cut" for wp cut
    using cut_of_le[OF that(2)] profit_sum_le[OF that(1) nn] by simp
  show ?thesis
    using assms(1) on p c
    by (auto simp: settle_def Let_def split: sum.splits)
qed

lemma pot_jackpot_loop:
  "jackpot_loop pa tws n ws d = Inl (err, d') \<or> jackpot_loop pa tws n ws d = Inr d'
     \<Longrightarrow> pot d' = pot d"
proof (induction ws arbitrary: d)
  case Nil
  then show ?case by simp
next
  case (Cons w ws)
  show ?case
  proof (cases "if 0 < tws then share_of pa (amount (snd w)) tws else equal_share_of pa n")
    case (Inl e)
    with Cons.prems show ?thesis by simp
  next
    case (Inr share)
    with Cons.prems have "jackpot_loop pa tws n ws (add_balance (fst w) share d) = Inl (err, d')
        \<or> jackpot_loop pa tws n ws (add_balance (fst w) share d) = Inr d'"
      by simp
    from Cons.IH[OF this] show ?thesis by simp
  qed
qed

lemma pot_jackpot:
  assumes "jackpot dc winners d = Inl (err, d') \<or> jackpot dc winners d = Inr (paid, d')"
  shows "pot d' = pot d \<or> pot d' = 0"
proof (cases "(count_list dc 1 = 3 \<or> count_list dc 6 = 3) \<and> winners \<noteq> []")
  case False
  with assms show ?thesis by (auto simp: jackpot_def split: if_splits)
next
  case True
  let ?r = "jackpot_loop (pot d) (sum_list (map (\<lambda>p. amount (snd p)) winners))
              (int (length winners)) winners d"
  show ?thesis
  proof (cases ?r)
    case (Inl e)
    with assms True have "?r = Inl (err, d')"
      by (simp add: jackpot_def Let_def)
    then show ?thesis using pot_jackpot_loop by blast
  next
    case (Inr d2)
    with assms True have d': "d' = d2\<lparr>pot := 0\<rparr>"
      by (simp add: jackpot_def Let_def)
    then show ?thesis by simp
  qed
qed

lemma pot_close:
  assumes wf: "bets_wf d" and p: "0 \<le> pot d"
    and r: "close_betting_and_roll now rng i d = Inl (err, d')
            \<or> close_betting_and_roll now rng i d = Inr (res, d', i')"
  shows "0 \<le> pot d'"
proof (cases "status (round_cfg d) = Open")
  case False
  with r p show ?thesis by (simp add: close_betting_and_roll_def)
next
  case True
  define d1 where "d1 = d\<lparr>round_cfg := (round_cfg d)\<lparr>status := Closed\<rparr>\<rparr>"
  define dc where "dc = fst (choose_dice d1 rng i)"
  define sd where "sd = side_of_total (sum_list dc)"
  define bs where "bs = (case bets d1 (round_id (round_cfg d)) of None \<Rightarrow> [] | Some bs \<Rightarrow> bs)"
  have p1: "0 \<le> pot d1" using p by (simp add: d1_def)
  have nn: "\<forall>p\<in>set bs. 0 \<le> amount (snd p)"
  proof (cases "bets d (round_id (round_cfg d))")
    case None
    then show ?thesis by (simp add: bs_def d1_def)
  next
    case (Some xs)
    from bets_wfD(2)[OF wf Some] Some show ?thesis
      by (simp add: bs_def d1_def order_less_imp_le)
  qed
  show ?thesis
  proof (cases "settle sd bs d1")
    case (Inl e)
    with r True have "settle sd bs d1 = Inl (err, d')"
      by (simp add: close_betting_and_roll_def Let_def d1_def dc_def sd_def bs_def)
    then show ?thesis using pot_settle[OF _ nn p1] by blast
  next
    case (Inr q)
    obtain pays d2 where q: "q = (pays, d2)" by (cases q)
    have p2: "0 \<le> pot d2"
      using Inr q pot_settle[OF _ nn p1] by blast
    show ?thesis
    proof (cases "jackpot dc (filter (\<lambda>p. bet_side (snd p) = sd) bs) d2")
      case (Inl e)
      with r True Inr q have "jackpot dc (filter (\<lambda>p. bet_side (snd p) = sd) bs) d2 = Inl (err, d')"
        by (simp add: close_betting_and_roll_def Let_def d1_def dc_def sd_def bs_def)
      then have "pot d' = pot d2 \<or> pot d' = 0" using pot_jackpot by blast
      then show ?thesis using p2 by auto
    next
      case (Inr j)
      obtain paid d3 where j: "j = (paid, d3)" by (cases j)
      have "pot d3 = pot d2 \<or> pot d3 = 0" using Inr j pot_jackpot by blast
      then have p3: "0 \<le> pot d3" using p2 by auto
      have "pot d' = pot d3"
        using r True \<open>settle sd bs d1 = Inr q\<close> q Inr j
        by (auto simp: close_betting_and_roll_def Let_def d1_def dc_def sd_def bs_def
            split: option.splits)
      then show ?thesis using p3 by simp
    qed
  qed
qed

lemma pot_run_operation:
  assumes wf: "bets_wf d" and p: "0 \<le> pot d"
  shows "0 \<le> pot (run_operation cfg op d)"
proof (cases op)
  case (OpSchedulerClose now rng i)
  show ?thesis
  proof (cases "close_betting_and_roll now rng i d")
    case (Inl e)
    obtain err d' where e: "e = (err, d')" by (cases e)
    with Inl pot_close[OF wf p, of now rng i err d'] OpSchedulerClose show ?thesis by simp
  next
    case (Inr r)
    obtain res d' i' where r: "r = (res, d', i')" by (cases r)
    with Inr pot_close[OF wf p, of now rng i _ d' res i'] OpSchedulerClose show ?thesis by simp
  qed
qed (use p in \<open>simp_all add: pot_handlers pot_callback\<close>)

lemma reachable_wf:
  "bets_wf d \<and> 0 \<le> pot d \<Longrightarrow>
   bets_wf (fold (run_operation cfg) ops d) \<and> 0 \<le> pot (fold (run_operation cfg) ops d)"
  by (induction ops arbitrary: d) (simp_all add: bets_wf_run_operation pot_run_operation)

lemma pot_nonneg_reachable: "0 \<le> pot (fold (run_operation cfg) ops default_data)"
  using reachable_wf[of default_data cfg ops] bets_wf_default by (simp add: default_data_def)

end
